theory Spec2Isabelle
  imports Complex_Main "HOL-Library.Word"
begin

section \<open>Values of the numeric layer\<close>

text \<open>
  The enhancement routine \<^verbatim>\<open>processAlgorithm\<close> of
  \<^verbatim>\<open>SpectralEnhancementAlgorithm.py\<close> works on float64 arrays and writes
  uint8 arrays. Finite float64 samples are modelled as \<open>real\<close>. The rounding of
  binary64 arithmetic is modelled in every operation of linear stretch, its percentiles
  included, and in the bin edges and bin indices of \<^verbatim>\<open>np.histogram\<close>, whose check
  of the edges can raise. There each operation gives \<open>binary64\<close> of its exact result.
  Elsewhere (gamma correction, the scaling of the cumulative distribution and the
  interpolation of equalization) arithmetic is exact. The two
  operations of the source that can leave the finite values, the division of linear
  stretch and the power of gamma correction, return an \<open>npfloat\<close>, which carries the
  IEEE special values. Exceptions are values of \<open>pyerror\<close>.
\<close>

datatype pyerror =
    QgsProcessingException string
  | IndexError
  | ValueError
  | ZeroDivisionError

datatype npfloat = Fin real | PInf | NInf | NaN

text \<open>
  Rounding to binary64: to the nearest number with 53 significant bits, ties to the even
  one. The exponent range is not modelled (no overflow to infinity, no underflow), so
  this is the rounding of the machine as long as every result is zero or in the normal
  range of binary64.
\<close>

definition round_half_even :: "real \<Rightarrow> int" where
  "round_half_even m =
     (let f = \<lfloor>m\<rfloor>; d = m - of_int f
      in if d < 1 / 2 then f else if 1 / 2 < d then f + 1 else if even f then f else f + 1)"

definition binary64 :: "real \<Rightarrow> real" where
  "binary64 x =
     (if x = 0 then 0
      else let u = 2 powr (of_int \<lfloor>log 2 \<bar>x\<bar>\<rfloor> - 52)
           in of_int (round_half_even (x / u)) * u)"

definition rounded :: "npfloat \<Rightarrow> npfloat" where
  "rounded v = (case v of Fin x \<Rightarrow> Fin (binary64 x) | _ \<Rightarrow> v)"

text \<open>
  The samples and percentages for which the statements about rounded results are made:
  binary64 numbers that are zero or of a magnitude between \<^verbatim>\<open>2^-200\<close> and
  \<^verbatim>\<open>2^200\<close>. On them every difference, product and quotient that linear stretch
  and the bin edges of the histogram compute is zero or in the normal range.
\<close>

definition moderate :: "real \<Rightarrow> bool" where
  "moderate x = (binary64 x = x \<and> (x = 0 \<or> 1 / 2 ^ 200 \<le> \<bar>x\<bar> \<and> \<bar>x\<bar> \<le> 2 ^ 200))"

type_synonym uint8 = "8 word"

text \<open>
  \<^verbatim>\<open>.astype(np.uint8)\<close> on a float64 array is the C conversion from double to an
  unsigned 8-bit integer: the fractional part is discarded, and the result is defined
  only when the truncated value fits. For NaN, the infinities and values outside
  \<open>(-1, 256)\<close> the language defines no result and the value depends on the platform;
  that behaviour is the parameter \<open>ub\<close> of the model.
\<close>

type_synonym cast_ub = "npfloat \<Rightarrow> uint8"

definition c_trunc :: "real \<Rightarrow> int" where
  "c_trunc x = (if 0 \<le> x then \<lfloor>x\<rfloor> else \<lceil>x\<rceil>)"

fun astype_uint8 :: "cast_ub \<Rightarrow> npfloat \<Rightarrow> uint8" where
  "astype_uint8 ub (Fin x) =
     (if - 1 < x \<and> x < 256 then word_of_int (c_trunc x) else ub (Fin x))"
| "astype_uint8 ub PInf = ub PInf"
| "astype_uint8 ub NInf = ub NInf"
| "astype_uint8 ub NaN = ub NaN"

text \<open>
  numpy's true division and multiplication of finite operands, before rounding: no
  exception, IEEE special values.
\<close>

definition np_divide :: "real \<Rightarrow> real \<Rightarrow> npfloat" where
  "np_divide a b =
     (if b \<noteq> 0 then Fin (a / b)
      else if a = 0 then NaN
      else if 0 < a then PInf else NInf)"

fun np_multiply :: "npfloat \<Rightarrow> real \<Rightarrow> npfloat" where
  "np_multiply (Fin a) c = Fin (a * c)"
| "np_multiply PInf c = (if c = 0 then NaN else if 0 < c then PInf else NInf)"
| "np_multiply NInf c = (if c = 0 then NaN else if 0 < c then NInf else PInf)"
| "np_multiply NaN c = NaN"

text \<open>\<^verbatim>\<open>np.power(base, e)\<close> for finite operands (IEEE \<^verbatim>\<open>pow\<close>).\<close>

definition np_power :: "real \<Rightarrow> real \<Rightarrow> npfloat" where
  "np_power b e =
     (if e = 0 then Fin 1
      else if b = 0 then (if 0 < e then Fin 0 else PInf)
      else if 0 < b then Fin (b powr e)
      else if e \<in> \<int> then Fin (power_int b \<lfloor>e\<rfloor>)
      else NaN)"

text \<open>Python's \<^verbatim>\<open>a / b\<close> on floats raises on a zero divisor.\<close>

definition py_truediv :: "real \<Rightarrow> real \<Rightarrow> pyerror + real" where
  "py_truediv a b = (if b = 0 then Inl ZeroDivisionError else Inr (a / b))"

definition amin :: "real list \<Rightarrow> real" where
  "amin xs = Min (set xs)"

definition amax :: "real list \<Rightarrow> real" where
  "amax xs = Max (set xs)"

definition np_clip :: "real \<Rightarrow> real \<Rightarrow> real \<Rightarrow> real" where
  "np_clip x a_min a_max = min (max x a_min) a_max"

text \<open>
  \<^verbatim>\<open>np.percentile(a, q)\<close> with the default linear method, on a non-empty array
  (the source calls it only after the check \<^verbatim>\<open>valid_data.size == 0\<close>), in the
  order of numpy's operations: \<open>q / 100\<close>, which must lie in \<open>[0, 1]\<close> or ValueError is
  raised; the virtual index \<open>(n - 1) * (q / 100)\<close>; its two neighbours in the sorted
  array, both the last element when the index reaches \<open>n - 1\<close>; the weight \<open>t\<close>, the
  virtual index minus the lower index (which numpy has set to \<open>-1\<close> in that last case);
  and the interpolation \<open>lo + (hi - lo) * t\<close>, computed as \<open>hi - (hi - lo) * (1 - t)\<close>
  when \<open>t \<ge> 0.5\<close>.
\<close>

definition np_percentile :: "real list \<Rightarrow> real \<Rightarrow> pyerror + real" where
  "np_percentile a q =
     (let quant = binary64 (q / 100)
      in if quant < 0 \<or> 1 < quant then Inl ValueError
         else
           let s = sort a;
               n = length a;
               vi = binary64 (real (n - 1) * quant);
               above = (real (n - 1) \<le> vi);
               prev = (if above then n - 1 else nat \<lfloor>vi\<rfloor>);
               nxt = (if above then n - 1 else nat \<lfloor>vi\<rfloor> + 1);
               t = binary64 (vi - (if above then - 1 else of_int \<lfloor>vi\<rfloor>));
               lo = s ! prev;
               hi = s ! nxt;
               d = binary64 (hi - lo)
           in Inr (if 1 / 2 \<le> t then binary64 (hi - binary64 (d * binary64 (1 - t)))
                   else binary64 (lo + binary64 (d * t))))"

section \<open>Linear stretch (method 0)\<close>

text \<open>
  \<^verbatim>\<open>((stretched - p_min) / (p_max - p_min) * 255).astype(np.uint8)\<close> on the clipped
  samples; \<^verbatim>\<open>100 - cut_percent\<close> is a Python float operation.
\<close>

definition linear_stretch :: "cast_ub \<Rightarrow> real \<Rightarrow> real list \<Rightarrow> pyerror + uint8 list" where
  "linear_stretch ub cut_percent valid_data =
     (case np_percentile valid_data cut_percent of
        Inl e \<Rightarrow> Inl e
      | Inr p_min \<Rightarrow>
          (case np_percentile valid_data (binary64 (100 - cut_percent)) of
             Inl e \<Rightarrow> Inl e
           | Inr p_max \<Rightarrow>
               Inr (map (\<lambda>x. astype_uint8 ub
                      (rounded (np_multiply
                         (rounded (np_divide (binary64 (np_clip x p_min p_max - p_min))
                                     (binary64 (p_max - p_min))))
                         255)))
                    valid_data)))"

section \<open>Equalization (method 1)\<close>

text \<open>
  \<^verbatim>\<open>np.histogram(a, bins=n, range=(first, last))\<close> with equal-width bins: ValueError
  when \<open>first > last\<close> (the ValueError of numpy for a range that is not finite
  cannot occur, the samples being finite); an empty range is widened by one half on
  each side; the
  \<open>n + 1\<close> edges are \<^verbatim>\<open>np.linspace(first, last, n + 1)\<close>, that is
  \<open>i * step + first\<close> with \<open>step = (last - first) / n\<close> and the last edge set to
  \<open>last\<close>, and ValueError is raised when an edge is not below the next one (the range
  is too narrow for \<open>n\<close> bins in binary64); samples outside the range are dropped. The
  bin of a sample is the truncation of \<open>(x - first) / (last - first) * n\<close>, the right
  edge belonging to the last bin; numpy then compares the sample with the edges of that
  bin and moves it one bin down when it is below the left edge, one bin up when it has
  reached the right edge. Returns the counts and the edges.
\<close>

definition outer_edges :: "real \<times> real \<Rightarrow> pyerror + real \<times> real" where
  "outer_edges rng =
     (case rng of (first_edge, last_edge) \<Rightarrow>
        if first_edge > last_edge then Inl ValueError
        else if first_edge = last_edge
             then Inr (binary64 (first_edge - 1 / 2), binary64 (last_edge + 1 / 2))
             else Inr (first_edge, last_edge))"

definition np_linspace :: "real \<Rightarrow> real \<Rightarrow> nat \<Rightarrow> real list" where
  "np_linspace start stop n =
     (let step = binary64 (binary64 (stop - start) / real n)
      in map (\<lambda>i. binary64 (binary64 (real i * step) + start)) [0..<n] @ [stop])"

definition increasing_edges :: "real list \<Rightarrow> bool" where
  "increasing_edges bin_edges =
     list_all (\<lambda>(a, b). a < b) (zip (butlast bin_edges) (tl bin_edges))"

definition bin_index :: "real \<Rightarrow> real \<Rightarrow> nat \<Rightarrow> real list \<Rightarrow> real \<Rightarrow> nat" where
  "bin_index first_edge last_edge n bin_edges x =
     (let f_index = binary64 (binary64 (binary64 (x - first_edge) /
                       binary64 (last_edge - first_edge)) * real n);
          k0 = nat \<lfloor>f_index\<rfloor>;
          k1 = (if k0 = n then k0 - 1 else k0);
          k2 = (if x < bin_edges ! k1 then k1 - 1 else k1)
      in if bin_edges ! (k2 + 1) \<le> x \<and> k2 \<noteq> n - 1 then k2 + 1 else k2)"

definition np_histogram :: "real list \<Rightarrow> nat \<Rightarrow> real \<times> real \<Rightarrow> pyerror + int list \<times> real list" where
  "np_histogram a n rng =
     (case outer_edges rng of
        Inl e \<Rightarrow> Inl e
      | Inr (first_edge, last_edge) \<Rightarrow>
          let bin_edges = np_linspace first_edge last_edge n
          in if \<not> increasing_edges bin_edges then Inl ValueError
             else
               let kept = filter (\<lambda>x. first_edge \<le> x \<and> x \<le> last_edge) a;
                   indices = map (bin_index first_edge last_edge n bin_edges) kept;
                   hist = map (\<lambda>i. int (count_list indices i)) [0..<n]
               in Inr (hist, bin_edges))"

fun cumsum_from :: "int \<Rightarrow> int list \<Rightarrow> int list" where
  "cumsum_from acc [] = []"
| "cumsum_from acc (h # hs) = (acc + h) # cumsum_from (acc + h) hs"

definition cumsum :: "int list \<Rightarrow> int list" where
  "cumsum hist = cumsum_from 0 hist"

text \<open>
  \<^verbatim>\<open>np.interp(x, xp, fp)\<close> for one finite sample: the right value beyond the last
  point, the left value before the first, otherwise the segment \<open>j\<close> with
  \<open>xp[j] \<le> x < xp[j+1]\<close> and the line through its end points.
\<close>

definition np_interp :: "real \<Rightarrow> real list \<Rightarrow> real list \<Rightarrow> real" where
  "np_interp x xp fp =
     (if x > last xp then last fp
      else if x < hd xp then hd fp
      else
        let j = length (takeWhile (\<lambda>a. a \<le> x) xp) - 1
        in if j = length xp - 1 then fp ! j
           else if xp ! j = x then fp ! j
           else (fp ! (j + 1) - fp ! j) / (xp ! (j + 1) - xp ! j) * (x - xp ! j) + fp ! j)"

definition scale_cdf :: "cast_ub \<Rightarrow> int list \<Rightarrow> uint8 list" where
  "scale_cdf ub cdf =
     (let cdf_min = Min (set cdf);
          cdf_max = Max (set cdf)
      in if cdf_max > cdf_min
         then map (\<lambda>c. astype_uint8 ub
                (Fin (real_of_int ((c - cdf_min) * 255) / real_of_int (cdf_max - cdf_min)))) cdf
         else map (\<lambda>c. 0) cdf)"

definition bins_center :: "real list \<Rightarrow> real list" where
  "bins_center bins = map (\<lambda>(a, b). (a + b) / 2) (zip (butlast bins) (tl bins))"

definition equalization :: "cast_ub \<Rightarrow> real list \<Rightarrow> pyerror + uint8 list" where
  "equalization ub valid_data =
     (case np_histogram valid_data 256 (amin valid_data, amax valid_data) of
        Inl e \<Rightarrow> Inl e
      | Inr (hist, bins) \<Rightarrow>
          let cdf = scale_cdf ub (cumsum hist);
              centers = bins_center bins
          in Inr (map (\<lambda>x. astype_uint8 ub
                    (Fin (np_interp x centers (map (\<lambda>w. real (unat w)) cdf))))
                  valid_data))"

section \<open>Gamma correction (method 2)\<close>

definition gamma_correction :: "cast_ub \<Rightarrow> real \<Rightarrow> real list \<Rightarrow> pyerror + uint8 list" where
  "gamma_correction ub gamma valid_data =
     (let min_val = amin valid_data;
          max_val = amax valid_data;
          range_val = max_val - min_val;
          norm = (if range_val = 0 then map (\<lambda>x. 0) valid_data
                  else map (\<lambda>x. (x - min_val) / range_val) valid_data)
      in case py_truediv 1 gamma of
           Inl e \<Rightarrow> Inl e
         | Inr ex \<Rightarrow>
             Inr (map (\<lambda>v. astype_uint8 ub (np_multiply (np_power v ex) 255)) norm))"

section \<open>Bands, masks and the per-band step\<close>

record band =
  band_data :: "real list"
  band_nodata :: "real option"

text \<open>
  \<open>band_data\<close> is \<^verbatim>\<open>band.ReadAsArray().astype(np.float64)\<close> in row-major order,
  \<open>band_nodata\<close> is \<^verbatim>\<open>band.GetNoDataValue()\<close>.
\<close>

definition band_mask :: "band \<Rightarrow> bool list" where
  "band_mask b =
     (case band_nodata b of
        Some nd \<Rightarrow> map (\<lambda>x. x = nd) (band_data b)
      | None \<Rightarrow> map (\<lambda>x. False) (band_data b))"

text \<open>\<^verbatim>\<open>data[~mask]\<close>: the samples at the positions that are not masked, in order.\<close>

fun select_valid :: "'a list \<Rightarrow> bool list \<Rightarrow> 'a list" where
  "select_valid (x # xs) (k # ks) = (if k then select_valid xs ks else x # select_valid xs ks)"
| "select_valid xs ks = []"

text \<open>
  \<^verbatim>\<open>output_data[~mask] = vals\<close>: the values go to the positions that are not masked,
  in order.
\<close>

fun assign_valid :: "'a list \<Rightarrow> bool list \<Rightarrow> 'a list \<Rightarrow> 'a list" where
  "assign_valid (z # out) (k # ks) vals =
     (if k then z # assign_valid out ks vals
      else (case vals of [] \<Rightarrow> z # out | v # vs \<Rightarrow> v # assign_valid out ks vs))"
| "assign_valid out ks vals = out"

text \<open>\<^verbatim>\<open>output_data[mask] = 0\<close>.\<close>

fun assign_masked_zero :: "uint8 list \<Rightarrow> bool list \<Rightarrow> uint8 list" where
  "assign_masked_zero (z # out) (k # ks) = (if k then 0 else z) # assign_masked_zero out ks"
| "assign_masked_zero out ks = out"

text \<open>The chain \<^verbatim>\<open>if method_index == 0 ... elif ... == 1 ... elif ... == 2\<close>.\<close>

definition enhance ::
  "cast_ub \<Rightarrow> int \<Rightarrow> real \<Rightarrow> real \<Rightarrow> real list \<Rightarrow> bool list \<Rightarrow> uint8 list \<Rightarrow> pyerror + uint8 list" where
  "enhance ub method_index cut_percent gamma valid_data msk output_data =
     (if method_index = 0 then
        (case linear_stretch ub cut_percent valid_data of
           Inl e \<Rightarrow> Inl e
         | Inr stretched \<Rightarrow> Inr (assign_valid output_data msk stretched))
      else if method_index = 1 then
        (case equalization ub valid_data of
           Inl e \<Rightarrow> Inl e
         | Inr equalized \<Rightarrow> Inr (assign_valid output_data msk equalized))
      else if method_index = 2 then
        (case gamma_correction ub gamma valid_data of
           Inl e \<Rightarrow> Inl e
         | Inr corrected \<Rightarrow> Inr (assign_valid output_data msk corrected))
      else Inr output_data)"

datatype band_result = Skipped | Written "uint8 list" | Raised pyerror

definition process_band :: "cast_ub \<Rightarrow> int \<Rightarrow> real \<Rightarrow> real \<Rightarrow> band \<Rightarrow> band_result" where
  "process_band ub method_index cut_percent gamma b =
     (let data = band_data b;
          msk = band_mask b;
          valid_data = select_valid data msk
      in if valid_data = [] then Skipped
         else
           (case enhance ub method_index cut_percent gamma valid_data msk
                   (replicate (length data) 0) of
              Inl e \<Rightarrow> Raised e
            | Inr output_data \<Rightarrow> Written (assign_masked_zero output_data msk)))"

section \<open>Datasets and the run\<close>

record dataset =
  RasterXSize :: nat
  RasterYSize :: nat
  GeoTransform :: "real list"
  Projection :: string
  raster_bands :: "band list"

record out_band =
  pixels :: "uint8 list"
  out_nodata :: "real option"

record out_dataset =
  out_path :: string
  out_XSize :: nat
  out_YSize :: nat
  out_GeoTransform :: "real list"
  out_Projection :: string
  out_bands :: "out_band list"

text \<open>
  \<^verbatim>\<open>driver.Create(path, cols, rows, band_count, gdal.GDT_Byte)\<close>: a new GeoTIFF whose
  bands read as zero and have no nodata value, with the default geotransform and an
  empty projection.
\<close>

definition gdal_Create :: "string \<Rightarrow> nat \<Rightarrow> nat \<Rightarrow> nat \<Rightarrow> out_dataset" where
  "gdal_Create path cols rows band_count =
     \<lparr>out_path = path, out_XSize = cols, out_YSize = rows,
      out_GeoTransform = [0, 1, 0, 0, 0, 1], out_Projection = [],
      out_bands = replicate band_count \<lparr>pixels = replicate (cols * rows) 0, out_nodata = None\<rparr>\<rparr>"

text \<open>
  \<^verbatim>\<open>GetRasterBand(i).WriteArray(output_data)\<close>, \<^verbatim>\<open>SetNoDataValue(0)\<close> and
  \<^verbatim>\<open>FlushCache()\<close> on band \<open>i\<close> (1-based).
\<close>

definition write_band :: "out_dataset \<Rightarrow> nat \<Rightarrow> uint8 list \<Rightarrow> out_dataset" where
  "write_band out i output_data =
     out\<lparr>out_bands := (out_bands out)[i - 1 := \<lparr>pixels = output_data, out_nodata = Some 0\<rparr>]\<rparr>"

text \<open>What the run does that an observer can see, in order.\<close>

datatype event =
    InfoProcessing nat string
  | CreateOutput string
  | IsCanceled bool
  | InfoBand nat nat
  | ReadBand nat
  | WarnEmpty nat
  | WriteBand nat
  | CloseOutput
  | CloseInput
  | InfoComplete
  | ReportError pyerror
  | InfoTraceback

text \<open>
  The loop \<^verbatim>\<open>for i in range(1, band_count + 1)\<close>. The list \<open>cs\<close> holds the answers
  of \<^verbatim>\<open>feedback.isCanceled()\<close> to the successive calls (\<open>False\<close> once the list is
  used up). The result is the exception that left the loop, if any, with the trace and
  the output dataset at that moment.
\<close>

definition isCanceled :: "bool list \<Rightarrow> bool" where
  "isCanceled cs = (case cs of [] \<Rightarrow> False | c # _ \<Rightarrow> c)"

fun band_loop ::
  "cast_ub \<Rightarrow> int \<Rightarrow> real \<Rightarrow> real \<Rightarrow> nat \<Rightarrow> nat \<Rightarrow> band list \<Rightarrow> bool list \<Rightarrow>
   event list \<Rightarrow> out_dataset \<Rightarrow> pyerror option \<times> event list \<times> out_dataset" where
  "band_loop ub m cp g band_count i [] cs tr out = (None, tr, out)"
| "band_loop ub m cp g band_count i (b # bs) cs tr out =
     (if isCanceled cs then (None, tr @ [IsCanceled True], out)
      else
        (case process_band ub m cp g b of
           Skipped \<Rightarrow>
             band_loop ub m cp g band_count (i + 1) bs (tl cs)
               (tr @ [IsCanceled False, InfoBand i band_count, ReadBand i, WarnEmpty i]) out
         | Raised e \<Rightarrow>
             (Some e, tr @ [IsCanceled False, InfoBand i band_count, ReadBand i], out)
         | Written output_data \<Rightarrow>
             band_loop ub m cp g band_count (i + 1) bs (tl cs)
               (tr @ [IsCanceled False, InfoBand i band_count, ReadBand i, WriteBand i])
               (write_band out i output_data)))"

record params =
  raster_layer :: "dataset option"
  method_index :: int
  cut_percent :: real
  gamma :: real
  output_path :: string

text \<open>\<^verbatim>\<open>self.methods\<close>, set by \<^verbatim>\<open>initAlgorithm\<close>, and Python's list indexing.\<close>

definition methods :: "string list" where
  "methods = [''Linear Stretch (Percentile)'', ''Equalization'', ''Gamma Correction'']"

definition py_getitem :: "'a list \<Rightarrow> int \<Rightarrow> pyerror + 'a" where
  "py_getitem xs i =
     (if 0 \<le> i \<and> i < int (length xs) then Inr (xs ! nat i)
      else if i < 0 \<and> - int (length xs) \<le> i then Inr (xs ! nat (int (length xs) + i))
      else Inl IndexError)"

text \<open>
  How \<^verbatim>\<open>processAlgorithm\<close> ends: it returns the output path, or the handler
  \<^verbatim>\<open>except Exception\<close> reports the error and returns the empty dictionary, or the
  exception raised before the \<^verbatim>\<open>try\<close> block reaches the caller.
\<close>

datatype outcome = ReturnedOutput string | ReturnedEmpty pyerror | Propagated pyerror

record result =
  outcome :: outcome
  trace :: "event list"
  output_ds :: "out_dataset option"

definition caught :: "pyerror \<Rightarrow> event list \<Rightarrow> out_dataset option \<Rightarrow> result" where
  "caught e tr out =
     \<lparr>outcome = ReturnedEmpty e, trace = tr @ [ReportError e, InfoTraceback], output_ds = out\<rparr>"

text \<open>
  The output dataset before the loop: \<^verbatim>\<open>driver.Create\<close>, then
  \<^verbatim>\<open>SetGeoTransform(ds.GetGeoTransform())\<close> and
  \<^verbatim>\<open>SetProjection(ds.GetProjection())\<close>.
\<close>

definition create_output :: "string \<Rightarrow> dataset \<Rightarrow> out_dataset" where
  "create_output path ds =
     (gdal_Create path (RasterXSize ds) (RasterYSize ds) (length (raster_bands ds)))
       \<lparr>out_GeoTransform := GeoTransform ds, out_Projection := Projection ds\<rparr>"

text \<open>
  \<^verbatim>\<open>processAlgorithm\<close>. The layer, when present, carries the dataset that
  \<^verbatim>\<open>gdal.Open(raster_layer.source())\<close> opens.
\<close>

definition processAlgorithm :: "cast_ub \<Rightarrow> params \<Rightarrow> bool list \<Rightarrow> result" where
  "processAlgorithm ub p cs =
     (case raster_layer p of
        None \<Rightarrow>
          \<lparr>outcome = Propagated (QgsProcessingException ''Invalid layer''),
           trace = [], output_ds = None\<rparr>
      | Some ds \<Rightarrow>
          let band_count = length (raster_bands ds)
          in if band_count = 0
             then caught (QgsProcessingException ''Raster has no bands'') [] None
             else
               (case py_getitem methods (method_index p) of
                  Inl e \<Rightarrow> caught e [] None
                | Inr name \<Rightarrow>
                    (case band_loop ub (method_index p) (cut_percent p) (gamma p) band_count 1
                            (raster_bands ds) cs
                            [InfoProcessing band_count name, CreateOutput (output_path p)]
                            (create_output (output_path p) ds) of
                       (Some e, tr, out) \<Rightarrow> caught e tr (Some out)
                     | (None, tr, out) \<Rightarrow>
                         \<lparr>outcome = ReturnedOutput (output_path p),
                          trace = tr @ [CloseOutput, CloseInput, InfoComplete],
                          output_ds = Some out\<rparr>)))"

section \<open>The declared parameters\<close>

text \<open>
  The numeric parameters that \<^verbatim>\<open>initAlgorithm\<close> declares with
  \<^verbatim>\<open>QgsProcessingParameterNumber\<close>, and the range that a declaration admits.
\<close>

record number_parameter =
  minValue :: real
  maxValue :: real
  defaultValue :: real
  optional :: bool

definition CUT_PERCENT_parameter :: number_parameter where
  "CUT_PERCENT_parameter = \<lparr>minValue = 0, maxValue = 50, defaultValue = 2, optional = True\<rparr>"

definition GAMMA_parameter :: number_parameter where
  "GAMMA_parameter = \<lparr>minValue = 1 / 10, maxValue = 10, defaultValue = 1, optional = True\<rparr>"

definition within_declared_range :: "number_parameter \<Rightarrow> real \<Rightarrow> bool" where
  "within_declared_range d v = (minValue d \<le> v \<and> v \<le> maxValue d)"

section \<open>The formulas of the specification\<close>

text \<open>
  The value that section 4.2 of the specification gives for linear stretch,
  \<^verbatim>\<open>round((clip(x,low,high) - low) / (high - low) * 255)\<close>, the exact linear
  rescale of \<open>[0, 100]\<close> to \<open>[0, 255]\<close> of its scenario A, and plain min-max
  normalization scaled to \<open>[0, 255]\<close> (with the conversion to uint8 of the source).
\<close>

definition spec_linear_stretch :: "real \<Rightarrow> real \<Rightarrow> real \<Rightarrow> uint8" where
  "spec_linear_stretch low high x =
     word_of_int (round ((np_clip x low high - low) / (high - low) * 255))"

definition spec_rescale_0_100 :: "real \<Rightarrow> uint8" where
  "spec_rescale_0_100 x = word_of_int (round (x / 100 * 255))"


section \<open>Reading a run\<close>

text \<open>
  The events of one iteration that is not cancelled, the events of consecutive
  iterations starting at band \<open>i\<close>, and the output dataset after them, as functions of
  the results of the bands.
\<close>

definition band_events :: "nat \<Rightarrow> nat \<Rightarrow> band_result \<Rightarrow> event list" where
  "band_events band_count i r =
     [IsCanceled False, InfoBand i band_count, ReadBand i] @
     (case r of Skipped \<Rightarrow> [WarnEmpty i] | Written px \<Rightarrow> [WriteBand i] | Raised e \<Rightarrow> [])"

fun bands_events :: "nat \<Rightarrow> nat \<Rightarrow> band_result list \<Rightarrow> event list" where
  "bands_events band_count i [] = []"
| "bands_events band_count i (r # rs) = band_events band_count i r @ bands_events band_count (i + 1) rs"

definition band_written :: "out_dataset \<Rightarrow> nat \<Rightarrow> band_result \<Rightarrow> out_dataset" where
  "band_written out i r = (case r of Written px \<Rightarrow> write_band out i px | _ \<Rightarrow> out)"

fun bands_written :: "out_dataset \<Rightarrow> nat \<Rightarrow> band_result list \<Rightarrow> out_dataset" where
  "bands_written out i [] = out"
| "bands_written out i (r # rs) = bands_written (band_written out i r) (i + 1) rs"

definition zero_band :: "dataset \<Rightarrow> out_band" where
  "zero_band ds = \<lparr>pixels = replicate (RasterXSize ds * RasterYSize ds) 0, out_nodata = None\<rparr>"

text \<open>The band of the output dataset after an iteration with result \<open>r\<close>.\<close>

definition out_band_of :: "out_band \<Rightarrow> band_result \<Rightarrow> out_band" where
  "out_band_of ob r = (case r of Written px \<Rightarrow> \<lparr>pixels = px, out_nodata = Some 0\<rparr> | _ \<Rightarrow> ob)"

definition all_nodata :: "band \<Rightarrow> bool" where
  "all_nodata b = (select_valid (band_data b) (band_mask b) = [])"

definition raises :: "band_result \<Rightarrow> bool" where
  "raises r = (case r of Raised e \<Rightarrow> True | _ \<Rightarrow> False)"

section \<open>Example inputs\<close>

text \<open>
  A raster of three bands on a grid of three by one pixels: the first band has no nodata
  value, the second is nodata everywhere, the third has one nodata pixel.
\<close>

definition scene :: dataset where
  "scene =
     \<lparr>RasterXSize = 3, RasterYSize = 1, GeoTransform = [100, 30, 0, 200, 0, - 30],
      Projection = ''EPSG:32630'',
      raster_bands =
        [\<lparr>band_data = [10, 12, 50], band_nodata = None\<rparr>,
         \<lparr>band_data = [- 9999, - 9999, - 9999], band_nodata = Some (- 9999)\<rparr>,
         \<lparr>band_data = [- 9999, 0, 100], band_nodata = Some (- 9999)\<rparr>]\<rparr>"

definition scene_params :: "int \<Rightarrow> real \<Rightarrow> real \<Rightarrow> params" where
  "scene_params m cp g =
     \<lparr>raster_layer = Some scene, method_index = m, cut_percent = cp, gamma = g,
      output_path = ''out.tif''\<rparr>"

text \<open>
  A raster of two bands on a grid of two by one pixels: the values of the first band,
  \<^verbatim>\<open>2^45\<close> and \<^verbatim>\<open>2^45 + 1\<close>, span a range too narrow for 256 bins in binary64;
  the second band is nodata everywhere.
\<close>

definition narrow_scene :: dataset where
  "narrow_scene =
     \<lparr>RasterXSize = 2, RasterYSize = 1, GeoTransform = [100, 30, 0, 200, 0, - 30],
      Projection = ''EPSG:32630'',
      raster_bands =
        [\<lparr>band_data = [2 ^ 45, 2 ^ 45 + 1], band_nodata = None\<rparr>,
         \<lparr>band_data = [- 9999, - 9999], band_nodata = Some (- 9999)\<rparr>]\<rparr>"

text \<open>A platform on which every cast that the language leaves undefined gives 0.\<close>

definition ub_zero :: cast_ub where
  "ub_zero v = 0"

section \<open>Rounding to binary64\<close>

lemma round_half_even_of_int: "round_half_even (of_int k) = k"
  by (simp add: round_half_even_def)

lemma round_half_even_cases:
  "round_half_even m = \<lfloor>m\<rfloor> \<or> round_half_even m = \<lfloor>m\<rfloor> + 1"
  by (simp add: round_half_even_def Let_def)

lemma round_half_even_mono:
  assumes "a \<le> b"
  shows "round_half_even a \<le> round_half_even b"
proof (cases "\<lfloor>a\<rfloor> = \<lfloor>b\<rfloor>")
  case True
  with assms have "a - of_int \<lfloor>a\<rfloor> \<le> b - of_int \<lfloor>b\<rfloor>" by simp
  with True show ?thesis by (auto simp: round_half_even_def Let_def)
next
  case False
  with assms have "\<lfloor>a\<rfloor> + 1 \<le> \<lfloor>b\<rfloor>" using floor_mono [OF assms] by linarith
  moreover have "round_half_even a \<le> \<lfloor>a\<rfloor> + 1"
    using round_half_even_cases [of a] by linarith
  moreover have "\<lfloor>b\<rfloor> \<le> round_half_even b"
    using round_half_even_cases [of b] by linarith
  ultimately show ?thesis by linarith
qed

lemma round_half_even_ge: "of_int k \<le> m \<Longrightarrow> k \<le> round_half_even m"
  using round_half_even_mono [of "of_int k" m] by (simp add: round_half_even_of_int)

lemma round_half_even_le: "m \<le> of_int k \<Longrightarrow> round_half_even m \<le> k"
  using round_half_even_mono [of m "of_int k"] by (simp add: round_half_even_of_int)

lemma binary64_0: "binary64 0 = 0"
  by (simp add: binary64_def)

lemma exponent_bounds:
  assumes "0 < x"
  shows "2 powr of_int \<lfloor>log 2 x\<rfloor> \<le> x" and "x < 2 powr (of_int \<lfloor>log 2 x\<rfloor> + 1)"
  using floor_log_eq_powr_iff [of x 2 "\<lfloor>log 2 x\<rfloor>"] assms by simp_all

lemma binary64_pos_eq:
  assumes "0 < x"
  shows "binary64 x =
     of_int (round_half_even (x / 2 powr (of_int \<lfloor>log 2 x\<rfloor> - 52))) *
       2 powr (of_int \<lfloor>log 2 x\<rfloor> - 52)"
  using assms by (simp add: binary64_def Let_def)

lemma mantissa_bounds:
  assumes "0 < x"
  shows "2 ^ 52 \<le> x / 2 powr (of_int \<lfloor>log 2 x\<rfloor> - 52)"
    and "x / 2 powr (of_int \<lfloor>log 2 x\<rfloor> - 52) \<le> 2 ^ 53"
proof -
  let ?e = "of_int \<lfloor>log 2 x\<rfloor> :: real"
  have u: "0 < 2 powr (?e - 52)" by simp
  have a: "2 powr ?e = 2 ^ 52 * 2 powr (?e - 52)"
    by (simp add: powr_diff)
  have b: "2 powr (?e + 1) = 2 ^ 53 * 2 powr (?e - 52)"
    by (simp add: powr_diff powr_add)
  from exponent_bounds(1) [OF assms] a have "2 ^ 52 * 2 powr (?e - 52) \<le> x" by simp
  with u show "2 ^ 52 \<le> x / 2 powr (?e - 52)" by (simp add: le_divide_eq)
  from exponent_bounds(2) [OF assms] b have "x \<le> 2 ^ 53 * 2 powr (?e - 52)" by simp
  with u show "x / 2 powr (?e - 52) \<le> 2 ^ 53" by (simp add: divide_le_eq)
qed

lemma binary64_bounds:
  assumes "0 < x"
  shows "2 powr of_int \<lfloor>log 2 x\<rfloor> \<le> binary64 x"
    and "binary64 x \<le> 2 powr (of_int \<lfloor>log 2 x\<rfloor> + 1)"
proof -
  let ?e = "of_int \<lfloor>log 2 x\<rfloor> :: real"
  let ?u = "2 powr (?e - 52)"
  let ?r = "round_half_even (x / ?u)"
  have u: "0 < ?u" by simp
  have a: "2 powr ?e = 2 ^ 52 * ?u" by (simp add: powr_diff)
  have b: "2 powr (?e + 1) = 2 ^ 53 * ?u" by (simp add: powr_diff powr_add)
  have "of_int (2 ^ 52) \<le> x / ?u" using mantissa_bounds(1) [OF assms] by simp
  then have "2 ^ 52 \<le> ?r" by (rule round_half_even_ge)
  then have "(2 ^ 52 :: real) \<le> of_int ?r" by (metis of_int_le_iff of_int_numeral of_int_power)
  then have "2 ^ 52 * ?u \<le> of_int ?r * ?u" using u by (simp add: mult_right_mono)
  then show "2 powr ?e \<le> binary64 x" unfolding binary64_pos_eq [OF assms] a .
  have "x / ?u \<le> of_int (2 ^ 53)" using mantissa_bounds(2) [OF assms] by simp
  then have "?r \<le> 2 ^ 53" by (rule round_half_even_le)
  then have "of_int ?r \<le> (2 ^ 53 :: real)" by (metis of_int_le_iff of_int_numeral of_int_power)
  then have "of_int ?r * ?u \<le> 2 ^ 53 * ?u" using u by (simp add: mult_right_mono)
  then show "binary64 x \<le> 2 powr (?e + 1)" unfolding binary64_pos_eq [OF assms] b .
qed

lemma binary64_pos: "0 < x \<Longrightarrow> 0 < binary64 x"
proof -
  assume "0 < x"
  from binary64_bounds(1) [OF this] have "2 powr of_int \<lfloor>log 2 x\<rfloor> \<le> binary64 x" .
  moreover have "(0 :: real) < 2 powr of_int \<lfloor>log 2 x\<rfloor>" by simp
  ultimately show ?thesis by linarith
qed

lemma binary64_mono_pos:
  assumes "0 < x" "x \<le> y"
  shows "binary64 x \<le> binary64 y"
proof -
  from assms have y: "0 < y" by simp
  let ?ex = "\<lfloor>log 2 x\<rfloor>" and ?ey = "\<lfloor>log 2 y\<rfloor>"
  have le: "?ex \<le> ?ey" using assms y by (intro floor_mono) simp
  show ?thesis
  proof (cases "?ex = ?ey")
    case True
    let ?u = "2 powr (of_int ?ex - 52) :: real"
    have "x / ?u \<le> y / ?u" using assms by (simp add: divide_right_mono)
    then have "round_half_even (x / ?u) \<le> round_half_even (y / ?u)"
      by (rule round_half_even_mono)
    then have "of_int (round_half_even (x / ?u)) * ?u \<le> of_int (round_half_even (y / ?u)) * ?u"
      by (intro mult_right_mono) simp_all
    then show ?thesis
      unfolding binary64_pos_eq [OF assms(1)] binary64_pos_eq [OF y] True [symmetric] .
  next
    case False
    with le have "?ex + 1 \<le> ?ey" by simp
    then have "(of_int ?ex :: real) + 1 \<le> of_int ?ey" by linarith
    then have "(2 :: real) powr (of_int ?ex + 1) \<le> 2 powr of_int ?ey" by simp
    with binary64_bounds(2) [OF assms(1)] binary64_bounds(1) [OF y] show ?thesis by linarith
  qed
qed

lemma binary64_mono:
  assumes "0 \<le> x" "x \<le> y"
  shows "binary64 x \<le> binary64 y"
proof (cases "x = 0")
  case True
  show ?thesis
  proof (cases "y = 0")
    case True
    with \<open>x = 0\<close> show ?thesis by simp
  next
    case False
    with assms have "0 < y" by simp
    from binary64_pos [OF this] \<open>x = 0\<close> show ?thesis by (simp add: binary64_0)
  qed
next
  case False
  with assms have "0 < x" by simp
  then show ?thesis using assms(2) by (rule binary64_mono_pos)
qed


lemma binary64_dyadic_pos:
  assumes k: "0 < k" "k < 2 ^ 53"
  shows "binary64 (of_int k * 2 powr of_int j) = of_int k * 2 powr of_int j"
proof -
  let ?x = "of_int k * 2 powr of_int j :: real"
  let ?e = "\<lfloor>log 2 ?x\<rfloor>"
  have x: "0 < ?x" using k by simp
  have "?x < 2 ^ 53 * 2 powr of_int j"
  proof -
    have "(of_int k :: real) < of_int (2 ^ 53)" using k(2) by (simp only: of_int_less_iff)
    then have "(of_int k :: real) < 2 ^ 53" by simp
    then show ?thesis by (simp add: mult_strict_right_mono)
  qed
  also have "\<dots> = 2 powr (53 + of_int j)" by (simp add: powr_add)
  finally have "2 powr of_int ?e < (2 :: real) powr (53 + of_int j)"
    using exponent_bounds(1) [OF x] by linarith
  then have "(of_int ?e :: real) < 53 + of_int j" by simp
  then have e: "?e \<le> 52 + j" by linarith
  define n where "n = nat (j + 52 - ?e)"
  have n: "int n = j + 52 - ?e" using e by (simp add: n_def)
  have "(2 :: real) powr of_int (int n) = 2 ^ n"
    by (simp add: powr_realpow)
  then have p: "(2 :: real) powr (of_int j + 52 - of_int ?e) = 2 ^ n"
    using n by (metis of_int_add of_int_diff of_int_numeral)
  have "?x / 2 powr (of_int ?e - 52) = of_int k * 2 powr (of_int j - (of_int ?e - 52))"
    by (simp add: powr_diff)
  also have "\<dots> = of_int k * 2 powr (of_int j + 52 - of_int ?e)" by (simp add: algebra_simps)
  also have "\<dots> = of_int (k * 2 ^ n)" unfolding p by simp
  finally have m: "?x / 2 powr (of_int ?e - 52) = of_int (k * 2 ^ n)" .
  have "binary64 ?x = of_int (k * 2 ^ n) * 2 powr (of_int ?e - 52)"
    unfolding binary64_pos_eq [OF x] m round_half_even_of_int ..
  also have "\<dots> = (?x / 2 powr (of_int ?e - 52)) * 2 powr (of_int ?e - 52)"
    unfolding m ..
  also have "\<dots> = ?x" by simp
  finally show ?thesis .
qed

lemma binary64_of_int:
  assumes "0 \<le> k" "k < 2 ^ 53"
  shows "binary64 (of_int k) = of_int k"
proof (cases "k = 0")
  case True
  then show ?thesis by (simp add: binary64_0)
next
  case False
  with assms have "0 < k" by simp
  from binary64_dyadic_pos [OF this assms(2), of 0] show ?thesis by simp
qed

lemma binary64_of_nat:
  assumes "n < 2 ^ 53"
  shows "binary64 (real n) = real n"
proof -
  have "int n < 2 ^ 53" using assms by (metis of_nat_less_iff of_nat_numeral of_nat_power)
  from binary64_of_int [of "int n", OF _ this] show ?thesis by simp
qed

lemma binary64_div_pow2:
  assumes "0 \<le> k" "k < 2 ^ 53"
  shows "binary64 (of_int k / 2 ^ n) = of_int k / 2 ^ n"
proof (cases "k = 0")
  case True
  then show ?thesis by (simp add: binary64_0)
next
  case False
  with assms have "0 < k" by simp
  have "(2 :: real) powr of_int (- int n) = 1 / 2 ^ n"
    by (simp add: powr_minus powr_realpow divide_inverse)
  with binary64_dyadic_pos [OF \<open>0 < k\<close> assms(2), of "- int n"] show ?thesis by simp
qed

lemma binary64_1: "binary64 1 = 1"
  using binary64_of_int [of 1] by simp

lemma binary64_100: "binary64 100 = 100"
  using binary64_of_int [of 100] by simp

lemma binary64_255: "binary64 255 = 255"
  using binary64_of_int [of 255] by simp

lemma binary64_nonneg: "0 \<le> x \<Longrightarrow> 0 \<le> binary64 x"
  using binary64_mono [of 0 x] by (simp add: binary64_0)

lemma binary64_numeral:
  "(numeral k :: int) < 2 ^ 53 \<Longrightarrow> binary64 (numeral k) = numeral k"
  using binary64_of_int [of "numeral k"] by simp

lemma binary64_half: "binary64 (1 / 2) = 1 / 2"
  using binary64_div_pow2 [of 1 1] by simp

lemma binary64_quarter: "binary64 (1 / 4) = 1 / 4"
  using binary64_div_pow2 [of 1 2] by simp

lemma binary64_255_quarter: "binary64 (255 / 4) = 255 / 4"
  using binary64_div_pow2 [of 255 2] by simp

lemma moderate_0: "moderate 0"
  by (simp add: moderate_def binary64_0)

lemma round_half_even_near:
  assumes "of_int k - 1 / 2 < m" "m < of_int k + 1 / 2"
  shows "round_half_even m = k"
proof (cases "of_int k \<le> m")
  case True
  with assms have "\<lfloor>m\<rfloor> = k" by linarith
  with assms show ?thesis by (simp add: round_half_even_def Let_def)
next
  case False
  with assms have f: "\<lfloor>m\<rfloor> = k - 1" by linarith
  with assms show ?thesis by (simp add: round_half_even_def Let_def)
qed

lemma round_half_even_tie:
  assumes "m = of_int k + 1 / 2"
  shows "round_half_even m = (if even k then k else k + 1)"
proof -
  from assms have "\<lfloor>m\<rfloor> = k" by linarith
  with assms show ?thesis by (simp add: round_half_even_def Let_def)
qed

text \<open>
  Evaluation of \<open>binary64\<close> at a number \<open>x\<close> with \<open>x * 2 ^ n\<close> between \<open>2 ^ 52\<close>
  and \<open>2 ^ 53\<close>: the nearest multiple of \<open>1 / 2 ^ n\<close>.
\<close>

lemma binary64_scaled:
  assumes lo: "2 ^ 52 \<le> x * 2 ^ n" and hi: "x * 2 ^ n < 2 ^ 53"
  shows "binary64 x = of_int (round_half_even (x * 2 ^ n)) / 2 ^ n"
proof -
  have p: "(0 :: real) < 2 ^ n" by simp
  have x: "0 < x"
  proof (rule ccontr)
    assume "\<not> 0 < x"
    then have "x * 2 ^ n \<le> 0" using p by (simp add: mult_le_0_iff)
    moreover have "(0 :: real) < 2 ^ 52" by simp
    ultimately show False using lo by linarith
  qed
  have a: "(2 :: real) powr (of_int (52 - int n)) = 2 ^ 52 / 2 ^ n"
    by (simp add: powr_diff powr_realpow)
  have b: "(2 :: real) powr (of_int (52 - int n) + 1) = 2 ^ 53 / 2 ^ n"
    by (simp add: powr_diff powr_add powr_realpow)
  have "2 powr of_int (52 - int n) \<le> x" unfolding a using lo p by (simp add: divide_le_eq)
  moreover have "x < 2 powr (of_int (52 - int n) + 1)"
    unfolding b using hi p by (simp add: less_divide_eq)
  ultimately have e: "\<lfloor>log 2 x\<rfloor> = 52 - int n"
    using floor_log_eq_powr_iff [of x 2 "52 - int n"] x by simp
  have u: "(2 :: real) powr (of_int (52 - int n) - 52) = 1 / 2 ^ n"
    by (simp add: powr_minus powr_realpow divide_inverse)
  show ?thesis unfolding binary64_pos_eq [OF x] e u by simp
qed

lemma binary64_near:
  assumes y: "y = of_int k / 2 ^ n"
    and lo: "2 ^ 52 \<le> x * 2 ^ n" and hi: "x * 2 ^ n < 2 ^ 53"
    and a: "of_int k - 1 / 2 < x * 2 ^ n" and b: "x * 2 ^ n < of_int k + 1 / 2"
  shows "binary64 x = y"
  unfolding binary64_scaled [OF lo hi] round_half_even_near [OF a b] y ..

lemma binary64_tie:
  assumes y: "y = of_int (if even k then k else k + 1) / 2 ^ n"
    and lo: "2 ^ 52 \<le> x * 2 ^ n" and hi: "x * 2 ^ n < 2 ^ 53"
    and t: "x * 2 ^ n = of_int k + 1 / 2"
  shows "binary64 x = y"
  unfolding binary64_scaled [OF lo hi] round_half_even_tie [OF t] y ..

section \<open>Masks and the per-band step\<close>

lemma length_assign_valid: "length (assign_valid out ks vals) = length out"
  by (induction out ks vals rule: assign_valid.induct) (auto split: list.splits)

lemma length_assign_masked_zero: "length (assign_masked_zero out ks) = length out"
  by (induction out ks rule: assign_masked_zero.induct) auto

lemma assign_masked_zero_nth:
  "k < length out \<Longrightarrow> k < length ks \<Longrightarrow> ks ! k \<Longrightarrow> assign_masked_zero out ks ! k = 0"
proof (induction out ks arbitrary: k rule: assign_masked_zero.induct)
  case (1 z out c ks)
  then show ?case by (cases k) auto
qed auto

lemma length_band_mask: "length (band_mask b) = length (band_data b)"
  by (simp add: band_mask_def split: option.splits)

lemma enhance_length:
  "enhance ub m cp g valid msk out = Inr r \<Longrightarrow> length r = length out"
  by (auto simp: enhance_def length_assign_valid split: if_splits sum.splits)

lemmas numeric_defs =
  linear_stretch_def np_percentile_def np_divide_def np_clip_def c_trunc_def
  gamma_correction_def amin_def amax_def py_truediv_def np_power_def

lemmas run_defs =
  processAlgorithm_def scene_params_def scene_def py_getitem_def methods_def
  create_output_def gdal_Create_def process_band_def band_mask_def enhance_def
  isCanceled_def write_band_def caught_def ub_zero_def

text \<open>
  C4. In every band that the loop writes, whatever the method index, the output has the
  shape of the input and every position that the nodata mask covers holds 0.
\<close>

theorem nodata_positions_zero:
  assumes "process_band ub m cp g b = Written px"
    and "k < length (band_data b)"
    and "band_mask b ! k"
  shows "length px = length (band_data b) \<and> px ! k = 0"
proof -
  from assms(1) obtain r where
    E: "enhance ub m cp g (select_valid (band_data b) (band_mask b)) (band_mask b)
          (replicate (length (band_data b)) 0) = Inr r"
    and P: "px = assign_masked_zero r (band_mask b)"
    by (auto simp: process_band_def Let_def split: if_splits sum.splits)
  from enhance_length [OF E] have L: "length r = length (band_data b)" by simp
  with P assms(2,3) show ?thesis
    by (simp add: length_assign_masked_zero assign_masked_zero_nth length_band_mask)
qed

theorem nodata_positions_zero_witness:
  "process_band ub_zero 2 2 1 (raster_bands scene ! 2) = Written [0, 0, 255] \<and>
   band_mask (raster_bands scene ! 2) ! 0 \<and>
   length [0, 0, 255 :: uint8] = length (band_data (raster_bands scene ! 2)) \<and>
   [0, 0, 255 :: uint8] ! 0 = 0"
proof -
  have h1: "process_band ub_zero 2 2 1 (raster_bands scene ! 2) = Written [0, 0, 255]"
    by (simp add: run_defs numeric_defs)
  have h2: "0 < length (band_data (raster_bands scene ! 2))"
    by (simp add: scene_def)
  have h3: "band_mask (raster_bands scene ! 2) ! 0"
    by (simp add: scene_def band_mask_def)
  from nodata_positions_zero [OF h1 h2 h3] h1 h3 show ?thesis by simp
qed

section \<open>The run\<close>

lemma band_loop_frame:
  "band_loop ub m cp g n i bs cs tr out = (e, tr', out') \<Longrightarrow>
   out_GeoTransform out' = out_GeoTransform out \<and>
   out_Projection out' = out_Projection out \<and>
   length (out_bands out') = length (out_bands out)"
proof (induction bs arbitrary: i cs tr out)
  case Nil
  then show ?case by simp
next
  case (Cons b bs)
  show ?case
  proof (cases "isCanceled cs")
    case True
    with Cons.prems show ?thesis by simp
  next
    case False
    show ?thesis
    proof (cases "process_band ub m cp g b")
      case Skipped
      with False Cons.prems Cons.IH show ?thesis by simp
    next
      case (Raised x)
      with False Cons.prems show ?thesis by simp
    next
      case (Written px)
      with False Cons.prems
      have "band_loop ub m cp g n (i + 1) bs (tl cs)
              (tr @ [IsCanceled False, InfoBand i n, ReadBand i, WriteBand i])
              (write_band out i px) = (e, tr', out')"
        by simp
      from Cons.IH [OF this] show ?thesis by (simp add: write_band_def)
    qed
  qed
qed

text \<open>
  C9. Whenever the run returns the output path, the output dataset carries the
  geotransform and the projection of the input dataset and has as many bands, whatever
  the method, the parameters and the cancellation answers.
\<close>

theorem geometry_preserved:
  assumes "outcome (processAlgorithm ub p cs) = ReturnedOutput path"
  shows "\<exists>ds out. raster_layer p = Some ds \<and> output_ds (processAlgorithm ub p cs) = Some out \<and>
     out_GeoTransform out = GeoTransform ds \<and> out_Projection out = Projection ds \<and>
     length (out_bands out) = length (raster_bands ds)"
proof (cases "raster_layer p")
  case None
  with assms show ?thesis by (simp add: processAlgorithm_def)
next
  case (Some ds)
  show ?thesis
  proof (cases "py_getitem methods (method_index p)")
    case (Inl e)
    with Some assms show ?thesis
      by (simp add: processAlgorithm_def caught_def Let_def split: if_splits)
  next
    case (Inr name)
    obtain e tr out where L: "band_loop ub (method_index p) (cut_percent p) (gamma p)
        (length (raster_bands ds)) 1 (raster_bands ds) cs
        [InfoProcessing (length (raster_bands ds)) name, CreateOutput (output_path p)]
        (create_output (output_path p) ds) = (e, tr, out)"
      by (metis prod_cases3)
    from band_loop_frame [OF L]
    have F: "out_GeoTransform out = GeoTransform ds" "out_Projection out = Projection ds"
      "length (out_bands out) = length (raster_bands ds)"
      by (simp_all add: create_output_def gdal_Create_def)
    from Some Inr L assms have "output_ds (processAlgorithm ub p cs) = Some out"
      by (cases e) (simp_all add: processAlgorithm_def caught_def Let_def split: if_splits)
    with Some F show ?thesis by simp
  qed
qed

lemma band_loop_prefix:
  "k \<le> length bs \<Longrightarrow>
   (\<forall>j<k. \<not> isCanceled (drop j cs)) \<Longrightarrow>
   (k < length bs \<longrightarrow> isCanceled (drop k cs)) \<Longrightarrow>
   (\<forall>j<k. \<not> raises (process_band ub m cp g (bs ! j))) \<Longrightarrow>
   band_loop ub m cp g n i bs cs tr out =
     (None,
      tr @ bands_events n i (map (process_band ub m cp g) (take k bs)) @
        (if k < length bs then [IsCanceled True] else []),
      bands_written out i (map (process_band ub m cp g) (take k bs)))"
proof (induction bs arbitrary: k i cs tr out)
  case Nil
  then show ?case by simp
next
  case (Cons b bs)
  show ?case
  proof (cases k)
    case 0
    with Cons.prems show ?thesis by simp
  next
    case (Suc k')
    from Cons.prems Suc have nc: "\<not> isCanceled cs" by force
    from Cons.prems Suc have nr: "\<not> raises (process_band ub m cp g b)" by force
    have a: "k' \<le> length bs" using Cons.prems Suc by simp
    have b: "\<forall>j<k'. \<not> isCanceled (drop j (tl cs))"
      using Cons.prems(2) Suc by (auto simp: drop_Suc)
    have c: "k' < length bs \<longrightarrow> isCanceled (drop k' (tl cs))"
      using Cons.prems(3) Suc by (auto simp: drop_Suc)
    have d: "\<forall>j<k'. \<not> raises (process_band ub m cp g (bs ! j))"
      using Cons.prems(4) Suc by auto
    note IH = Cons.IH [OF a b c d]
    show ?thesis
      using nc nr Suc
      by (cases "process_band ub m cp g b")
         (simp_all add: IH band_events_def band_written_def raises_def)
  qed
qed

lemma band_written_frame:
  "out_GeoTransform (band_written out i r) = out_GeoTransform out \<and>
   out_Projection (band_written out i r) = out_Projection out \<and>
   length (out_bands (band_written out i r)) = length (out_bands out)"
  by (cases r) (simp_all add: band_written_def write_band_def)

lemma bands_written_length:
  "length (out_bands (bands_written out i rs)) = length (out_bands out)"
  by (induction rs arbitrary: out i) (simp_all add: band_written_frame)

lemma bands_written_nth:
  "out_bands (bands_written out (Suc i) rs) ! j =
     (if i \<le> j \<and> j < i + length rs \<and> j < length (out_bands out)
      then out_band_of (out_bands out ! j) (rs ! (j - i))
      else out_bands out ! j)"
proof (induction rs arbitrary: out i)
  case Nil
  then show ?case by auto
next
  case (Cons r rs)
  have L: "length (out_bands (band_written out (Suc i) r)) = length (out_bands out)"
    by (simp add: band_written_frame)
  have W: "out_bands (band_written out (Suc i) r) ! j =
      (if j = i \<and> j < length (out_bands out) then out_band_of (out_bands out ! j) r
       else out_bands out ! j)"
    by (cases r) (auto simp: band_written_def write_band_def out_band_of_def nth_list_update list_update_beyond)
  show ?case
  proof (cases "j = i")
    case True
    then show ?thesis using Cons.IH [of "band_written out (Suc i) r" "Suc i"] L W
      by simp
  next
    case False
    then show ?thesis using Cons.IH [of "band_written out (Suc i) r" "Suc i"] L W
      by (auto simp: nth_Cons' Suc_diff_le le_Suc_eq)
  qed
qed


lemma no_answer_True: "True \<notin> set cs \<Longrightarrow> \<not> isCanceled (drop j cs)"
proof -
  assume a: "True \<notin> set cs"
  have "set (drop j cs) \<subseteq> set cs" by (rule set_drop_subset)
  with a have "True \<notin> set (drop j cs)" by blast
  then show ?thesis by (cases "drop j cs") (auto simp: isCanceled_def)
qed

lemma processAlgorithm_prefix:
  assumes ly: "raster_layer p = Some ds"
    and nm: "py_getitem methods (method_index p) = Inr name"
    and ne: "raster_bands ds \<noteq> []"
    and k: "k \<le> length (raster_bands ds)"
    and nc: "\<forall>j<k. \<not> isCanceled (drop j cs)"
    and ca: "k < length (raster_bands ds) \<longrightarrow> isCanceled (drop k cs)"
    and nr: "\<forall>j<k. \<not> raises (process_band ub (method_index p) (cut_percent p) (gamma p)
               (raster_bands ds ! j))"
  shows "processAlgorithm ub p cs =
     \<lparr>outcome = ReturnedOutput (output_path p),
      trace = [InfoProcessing (length (raster_bands ds)) name, CreateOutput (output_path p)] @
        bands_events (length (raster_bands ds)) 1
          (map (process_band ub (method_index p) (cut_percent p) (gamma p))
             (take k (raster_bands ds))) @
        (if k < length (raster_bands ds) then [IsCanceled True] else []) @
        [CloseOutput, CloseInput, InfoComplete],
      output_ds = Some (bands_written (create_output (output_path p) ds) 1
          (map (process_band ub (method_index p) (cut_percent p) (gamma p))
             (take k (raster_bands ds))))\<rparr>"
  using ly nm ne
  by (simp add: processAlgorithm_def Let_def band_loop_prefix [OF k nc ca nr])

lemma created_bands_nth:
  "j < length (raster_bands ds) \<Longrightarrow> out_bands (create_output path ds) ! j = zero_band ds"
  by (simp add: create_output_def gdal_Create_def zero_band_def)

lemma run_bands_nth:
  assumes "k \<le> length (raster_bands ds)" and "j < length (raster_bands ds)"
  shows "out_bands (bands_written (create_output path ds) 1
            (map f (take k (raster_bands ds)))) ! j =
         (if j < k then out_band_of (zero_band ds) (f (raster_bands ds ! j)) else zero_band ds)"
proof -
  have "length (out_bands (create_output path ds)) = length (raster_bands ds)"
    by (simp add: create_output_def gdal_Create_def)
  with assms show ?thesis
    using bands_written_nth [of "create_output path ds" 0 "map f (take k (raster_bands ds))" j]
    by (simp add: created_bands_nth)
qed

section \<open>Bands that never raise, empty bands\<close>


lemma np_percentile_returns:
  assumes "0 \<le> q" "q \<le> 100"
  shows "\<exists>v. np_percentile a q = Inr v"
proof -
  have "0 \<le> binary64 (q / 100)" using assms by (intro binary64_nonneg) simp
  moreover have "binary64 (q / 100) \<le> binary64 1"
    using assms by (intro binary64_mono) simp_all
  ultimately show ?thesis
    by (simp add: np_percentile_def Let_def binary64_1)
qed

lemma complement_percentage:
  assumes "0 \<le> cp" "cp \<le> 100"
  shows "0 \<le> binary64 (100 - cp)" and "binary64 (100 - cp) \<le> 100"
proof -
  show "0 \<le> binary64 (100 - cp)" using assms by (intro binary64_nonneg) simp
  have "binary64 (100 - cp) \<le> binary64 100" using assms by (intro binary64_mono) simp_all
  then show "binary64 (100 - cp) \<le> 100" by (simp add: binary64_100)
qed

lemma linear_stretch_returns:
  assumes "0 \<le> cp" "cp \<le> 100"
  shows "\<exists>r. linear_stretch ub cp valid = Inr r"
proof -
  from np_percentile_returns [OF assms] obtain lo where lo: "np_percentile valid cp = Inr lo"
    by blast
  from np_percentile_returns [OF complement_percentage [OF assms]]
  obtain hi where hi: "np_percentile valid (binary64 (100 - cp)) = Inr hi" by blast
  show ?thesis by (simp add: linear_stretch_def lo hi)
qed

lemma gamma_correction_returns:
  "g \<noteq> 0 \<Longrightarrow> \<exists>r. gamma_correction ub g valid = Inr r"
  by (simp add: gamma_correction_def py_truediv_def Let_def)

lemma process_band_Skipped: "all_nodata b \<Longrightarrow> process_band ub m cp g b = Skipped"
  by (simp add: process_band_def all_nodata_def)


lemma process_band_no_raise:
  assumes "m \<noteq> 1" and "m = 0 \<longrightarrow> 0 \<le> cp \<and> cp \<le> 100" and "m = 2 \<longrightarrow> g \<noteq> 0"
  shows "\<not> raises (process_band ub m cp g b)"
proof (cases "all_nodata b")
  case True
  then show ?thesis by (simp add: process_band_Skipped raises_def)
next
  case False
  let ?v = "select_valid (band_data b) (band_mask b)"
  have "\<exists>r. enhance ub m cp g ?v (band_mask b) (replicate (length (band_data b)) 0) = Inr r"
  proof -
    consider "m = 0" | "m = 2" | "m \<noteq> 0 \<and> m \<noteq> 1 \<and> m \<noteq> 2" using assms(1) by blast
    then show ?thesis
    proof cases
      case 1
      with assms(2) linear_stretch_returns [of cp ub ?v] show ?thesis
        by (auto simp: enhance_def)
    next
      case 2
      with assms(3) gamma_correction_returns [of g ub ?v] show ?thesis
        by (auto simp: enhance_def)
    next
      case 3
      then show ?thesis by (simp add: enhance_def)
    qed
  qed
  then show ?thesis by (auto simp: process_band_def Let_def raises_def)
qed

theorem geometry_preserved_witness:
  "outcome (processAlgorithm ub_zero (scene_params 0 0 1) []) = ReturnedOutput ''out.tif'' \<and>
   (\<exists>out. output_ds (processAlgorithm ub_zero (scene_params 0 0 1) []) = Some out \<and>
      out_GeoTransform out = [100, 30, 0, 200, 0, - 30] \<and>
      out_Projection out = ''EPSG:32630'' \<and> length (out_bands out) = 3)"
proof -
  let ?p = "scene_params 0 0 1"
  have ly: "raster_layer ?p = Some scene" by (simp add: scene_params_def)
  have nm: "py_getitem methods (method_index ?p) = Inr ''Linear Stretch (Percentile)''"
    by (simp add: scene_params_def py_getitem_def methods_def)
  have ne: "raster_bands scene \<noteq> []" by (simp add: scene_def)
  have nc: "\<forall>j<length (raster_bands scene). \<not> isCanceled (drop j [])"
    by (simp add: isCanceled_def)
  have nr: "\<forall>j<length (raster_bands scene).
      \<not> raises (process_band ub_zero (method_index ?p) (cut_percent ?p) (gamma ?p)
                   (raster_bands scene ! j))"
    by (simp add: process_band_no_raise scene_params_def)
  have "outcome (processAlgorithm ub_zero ?p []) = ReturnedOutput (output_path ?p)"
    using processAlgorithm_prefix [OF ly nm ne le_refl nc _ nr] by simp
  then have h: "outcome (processAlgorithm ub_zero ?p []) = ReturnedOutput ''out.tif''"
    by (simp add: scene_params_def)
  from geometry_preserved [OF h] obtain ds out where
    a: "raster_layer (scene_params 0 0 1) = Some ds"
    and b: "output_ds (processAlgorithm ub_zero (scene_params 0 0 1) []) = Some out"
    and c: "out_GeoTransform out = GeoTransform ds" "out_Projection out = Projection ds"
      "length (out_bands out) = length (raster_bands ds)"
    by blast
  from a have "ds = scene" by (simp add: scene_params_def)
  with c have "out_GeoTransform out = [100, 30, 0, 200, 0, - 30]"
    "out_Projection out = ''EPSG:32630''" "length (out_bands out) = 3"
    by (simp_all add: scene_def)
  with h b show ?thesis by blast
qed





section \<open>Cancellation\<close>

text \<open>
  C8. Let \<open>k\<close> bands be processed without an exception while the cancellation flag
  answers False, and let the flag answer True at the next check when bands remain. Then
  the trace is the start of the run, the events of those \<open>k\<close> bands in order (each
  begins with its one check of the flag), the check that answered True if bands
  remained, and the closing of both datasets; the run returns the output path; the first
  \<open>k\<close> bands of the output are what their iterations wrote and the other bands are as
  created.
\<close>

theorem cancellation_point:
  assumes ly: "raster_layer p = Some ds"
    and nm: "py_getitem methods (method_index p) = Inr name"
    and ne: "raster_bands ds \<noteq> []"
    and k: "k \<le> length (raster_bands ds)"
    and nc: "\<forall>j<k. \<not> isCanceled (drop j cs)"
    and ca: "k < length (raster_bands ds) \<longrightarrow> isCanceled (drop k cs)"
    and nr: "\<forall>j<k. \<not> raises (process_band ub (method_index p) (cut_percent p) (gamma p)
               (raster_bands ds ! j))"
  shows "outcome (processAlgorithm ub p cs) = ReturnedOutput (output_path p) \<and>
     trace (processAlgorithm ub p cs) =
       [InfoProcessing (length (raster_bands ds)) name, CreateOutput (output_path p)] @
       bands_events (length (raster_bands ds)) 1
         (map (process_band ub (method_index p) (cut_percent p) (gamma p))
            (take k (raster_bands ds))) @
       (if k < length (raster_bands ds) then [IsCanceled True] else []) @
       [CloseOutput, CloseInput, InfoComplete] \<and>
     (\<exists>out. output_ds (processAlgorithm ub p cs) = Some out \<and>
        length (out_bands out) = length (raster_bands ds) \<and>
        (\<forall>j<length (raster_bands ds).
           out_bands out ! j =
             (if j < k
              then out_band_of (zero_band ds)
                     (process_band ub (method_index p) (cut_percent p) (gamma p)
                        (raster_bands ds ! j))
              else zero_band ds)))"
proof -
  let ?pb = "process_band ub (method_index p) (cut_percent p) (gamma p)"
  let ?out = "bands_written (create_output (output_path p) ds) 1
                (map ?pb (take k (raster_bands ds)))"
  note R = processAlgorithm_prefix [OF ly nm ne k nc ca nr]
  have L: "length (out_bands ?out) = length (raster_bands ds)"
    by (simp add: bands_written_length create_output_def gdal_Create_def)
  have B: "\<forall>j<length (raster_bands ds). out_bands ?out ! j =
      (if j < k then out_band_of (zero_band ds) (?pb (raster_bands ds ! j)) else zero_band ds)"
    using run_bands_nth [OF k, of _ "output_path p" ?pb] by blast
  show ?thesis using L B by (simp add: R)
qed

theorem cancellation_point_witness:
  "outcome (processAlgorithm ub_zero (scene_params 2 2 1) [False, True]) =
     ReturnedOutput ''out.tif'' \<and>
   trace (processAlgorithm ub_zero (scene_params 2 2 1) [False, True]) =
     [InfoProcessing 3 ''Gamma Correction'', CreateOutput ''out.tif'',
      IsCanceled False, InfoBand 1 3, ReadBand 1, WriteBand 1,
      IsCanceled True, CloseOutput, CloseInput, InfoComplete] \<and>
   (\<exists>out. output_ds (processAlgorithm ub_zero (scene_params 2 2 1) [False, True]) = Some out \<and>
      out_bands out ! 0 = \<lparr>pixels = [0, 12, 255], out_nodata = Some 0\<rparr> \<and>
      out_bands out ! 1 = \<lparr>pixels = [0, 0, 0], out_nodata = None\<rparr> \<and>
      out_bands out ! 2 = \<lparr>pixels = [0, 0, 0], out_nodata = None\<rparr>)"
proof -
  let ?p = "scene_params 2 2 1"
  let ?cs = "[False, True]"
  let ?pb = "process_band ub_zero (method_index ?p) (cut_percent ?p) (gamma ?p)"
  have ly: "raster_layer ?p = Some scene" by (simp add: scene_params_def)
  have nm: "py_getitem methods (method_index ?p) = Inr ''Gamma Correction''"
    by (simp add: scene_params_def py_getitem_def methods_def)
  have ne: "raster_bands scene \<noteq> []" by (simp add: scene_def)
  have k: "1 \<le> length (raster_bands scene)" by (simp add: scene_def)
  have nc: "\<forall>j<1. \<not> isCanceled (drop j ?cs)" by (simp add: isCanceled_def)
  have ca: "1 < length (raster_bands scene) \<longrightarrow> isCanceled (drop 1 ?cs)"
    by (simp add: isCanceled_def)
  have p0: "?pb (raster_bands scene ! 0) = Written [0, 12, 255]"
    by (simp add: run_defs numeric_defs)
  have nr: "\<forall>j<1. \<not> raises (?pb (raster_bands scene ! j))"
    using p0 by (simp add: raises_def)
  from cancellation_point [OF ly nm ne k nc ca nr]
  obtain out where
    o: "outcome (processAlgorithm ub_zero ?p ?cs) = ReturnedOutput (output_path ?p)"
    and t: "trace (processAlgorithm ub_zero ?p ?cs) =
       [InfoProcessing (length (raster_bands scene)) ''Gamma Correction'',
        CreateOutput (output_path ?p)] @
       bands_events (length (raster_bands scene)) 1 (map ?pb (take 1 (raster_bands scene))) @
       (if 1 < length (raster_bands scene) then [IsCanceled True] else []) @
       [CloseOutput, CloseInput, InfoComplete]"
    and s: "output_ds (processAlgorithm ub_zero ?p ?cs) = Some out"
    and b: "\<forall>j<length (raster_bands scene). out_bands out ! j =
             (if j < 1 then out_band_of (zero_band scene) (?pb (raster_bands scene ! j))
              else zero_band scene)"
    by blast
  have tk: "map ?pb (take 1 (raster_bands scene)) = [Written [0, 12, 255]]"
    using p0 by (simp add: scene_def)
  have t': "trace (processAlgorithm ub_zero ?p ?cs) =
     [InfoProcessing 3 ''Gamma Correction'', CreateOutput ''out.tif'',
      IsCanceled False, InfoBand 1 3, ReadBand 1, WriteBand 1,
      IsCanceled True, CloseOutput, CloseInput, InfoComplete]"
    unfolding t tk by (simp add: band_events_def scene_def scene_params_def)
  have i: "0 < length (raster_bands scene)" "1 < length (raster_bands scene)"
    "2 < length (raster_bands scene)"
    by (simp_all add: scene_def)
  have z: "zero_band scene = \<lparr>pixels = [0, 0, 0], out_nodata = None\<rparr>"
    by (simp add: zero_band_def scene_def numeral_3_eq_3)
  from b [rule_format, OF i(1)] p0
  have b0: "out_bands out ! 0 = \<lparr>pixels = [0, 12, 255], out_nodata = Some 0\<rparr>"
    by (simp add: out_band_of_def)
  from b [rule_format, OF i(2)] z
  have b1: "out_bands out ! 1 = \<lparr>pixels = [0, 0, 0], out_nodata = None\<rparr>" by simp
  from b [rule_format, OF i(3)] z
  have b2: "out_bands out ! 2 = \<lparr>pixels = [0, 0, 0], out_nodata = None\<rparr>" by simp
  from o have o': "outcome (processAlgorithm ub_zero ?p ?cs) = ReturnedOutput ''out.tif''"
    by (simp add: scene_params_def)
  from o' t' s b0 b1 b2 show ?thesis by blast
qed

section \<open>Method indices outside 0, 1, 2\<close>

lemma assign_masked_zero_zeros:
  "assign_masked_zero (replicate n 0) ks = replicate n 0"
proof (induction n arbitrary: ks)
  case 0
  then show ?case by simp
next
  case (Suc n)
  then show ?case by (cases ks) simp_all
qed

lemma process_band_no_branch:
  "m \<noteq> 0 \<Longrightarrow> m \<noteq> 1 \<Longrightarrow> m \<noteq> 2 \<Longrightarrow>
   process_band ub m cp g b =
     (if all_nodata b then Skipped else Written (replicate (length (band_data b)) 0))"
  by (simp add: process_band_def all_nodata_def enhance_def assign_masked_zero_zeros)

lemma methods_getitem_negative:
  "- 3 \<le> m \<Longrightarrow> m < 0 \<Longrightarrow> py_getitem methods m = Inr (methods ! nat (3 + m))"
  by (simp add: py_getitem_def methods_def)

lemma methods_getitem_outside:
  "3 \<le> m \<or> m < - 3 \<Longrightarrow> py_getitem methods m = Inl IndexError"
  by (auto simp: py_getitem_def methods_def)

text \<open>
  C10, amended. For a raster with at least one band, a run that is not cancelled and a
  method index outside \<open>{0, 1, 2}\<close>: when the index is \<open>-3\<close>, \<open>-2\<close> or \<open>-1\<close> (which
  Python resolves from the end of the list of method names) the run returns the output
  path and every band with a valid sample is written with all pixels 0 and nodata value
  0; for every other index the lookup of the method name raises IndexError, nothing is
  created, and the run returns the empty result.
\<close>

theorem method_index_outside:
  assumes ly: "raster_layer p = Some ds"
    and ne: "raster_bands ds \<noteq> []"
    and nc: "True \<notin> set cs"
    and me: "method_index p \<notin> {0, 1, 2}"
  shows "(- 3 \<le> method_index p \<and> method_index p < 0 \<longrightarrow>
       outcome (processAlgorithm ub p cs) = ReturnedOutput (output_path p) \<and>
       (\<exists>out. output_ds (processAlgorithm ub p cs) = Some out \<and>
          (\<forall>j<length (raster_bands ds). \<not> all_nodata (raster_bands ds ! j) \<longrightarrow>
             out_bands out ! j =
               \<lparr>pixels = replicate (length (band_data (raster_bands ds ! j))) 0,
                out_nodata = Some 0\<rparr>))) \<and>
     (3 \<le> method_index p \<or> method_index p < - 3 \<longrightarrow>
       processAlgorithm ub p cs =
         \<lparr>outcome = ReturnedEmpty IndexError, trace = [ReportError IndexError, InfoTraceback],
          output_ds = None\<rparr>)"
proof -
  let ?pb = "process_band ub (method_index p) (cut_percent p) (gamma p)"
  let ?n = "length (raster_bands ds)"
  let ?out = "bands_written (create_output (output_path p) ds) 1
                (map ?pb (take ?n (raster_bands ds)))"
  have outside: "processAlgorithm ub p cs =
         \<lparr>outcome = ReturnedEmpty IndexError, trace = [ReportError IndexError, InfoTraceback],
          output_ds = None\<rparr>"
    if "3 \<le> method_index p \<or> method_index p < - 3"
    using methods_getitem_outside [OF that] ly ne
    by (simp add: processAlgorithm_def caught_def)
  have negative: "outcome (processAlgorithm ub p cs) = ReturnedOutput (output_path p) \<and>
       (\<exists>out. output_ds (processAlgorithm ub p cs) = Some out \<and>
          (\<forall>j<length (raster_bands ds). \<not> all_nodata (raster_bands ds ! j) \<longrightarrow>
             out_bands out ! j =
               \<lparr>pixels = replicate (length (band_data (raster_bands ds ! j))) 0,
                out_nodata = Some 0\<rparr>))"
    if a: "- 3 \<le> method_index p \<and> method_index p < 0"
  proof -
    from a have m: "method_index p \<noteq> 0" "method_index p \<noteq> 1" "method_index p \<noteq> 2" by auto
    have pb: "\<And>b. ?pb b = (if all_nodata b then Skipped
                                else Written (replicate (length (band_data b)) 0))"
      by (rule process_band_no_branch [OF m])
    have nr: "\<forall>i<?n. \<not> raises (?pb (raster_bands ds ! i))"
      by (simp add: pb raises_def)
    from a have nm: "py_getitem methods (method_index p) = Inr (methods ! nat (3 + method_index p))"
      by (simp add: methods_getitem_negative)
    have R: "processAlgorithm ub p cs =
       \<lparr>outcome = ReturnedOutput (output_path p),
        trace = [InfoProcessing ?n (methods ! nat (3 + method_index p)),
                 CreateOutput (output_path p)] @
          bands_events ?n 1 (map ?pb (take ?n (raster_bands ds))) @
          (if ?n < ?n then [IsCanceled True] else []) @
          [CloseOutput, CloseInput, InfoComplete],
        output_ds = Some ?out\<rparr>"
      by (rule processAlgorithm_prefix [OF ly nm ne])
         (use nc nr in \<open>simp_all add: no_answer_True\<close>)
    have B: "\<forall>j<?n. \<not> all_nodata (raster_bands ds ! j) \<longrightarrow>
        out_bands ?out ! j =
          \<lparr>pixels = replicate (length (band_data (raster_bands ds ! j))) 0, out_nodata = Some 0\<rparr>"
      using run_bands_nth [of ?n ds _ "output_path p" ?pb]
      by (simp add: pb out_band_of_def)
    show ?thesis using B by (simp add: R)
  qed
  from outside negative show ?thesis by blast
qed

theorem method_index_outside_counterexample:
  "outcome (processAlgorithm ub_zero (scene_params 3 2 1) []) = ReturnedEmpty IndexError \<and>
   output_ds (processAlgorithm ub_zero (scene_params 3 2 1) []) = None \<and>
   \<not> all_nodata (raster_bands scene ! 0)"
  by (simp add: run_defs all_nodata_def)


theorem method_index_outside_witness:
  "outcome (processAlgorithm ub_zero (scene_params (- 1) 2 1) []) = ReturnedOutput ''out.tif'' \<and>
   (\<exists>out. output_ds (processAlgorithm ub_zero (scene_params (- 1) 2 1) []) = Some out \<and>
      out_bands out ! 0 = \<lparr>pixels = [0, 0, 0], out_nodata = Some 0\<rparr> \<and>
      out_bands out ! 2 = \<lparr>pixels = [0, 0, 0], out_nodata = Some 0\<rparr>) \<and>
   processAlgorithm ub_zero (scene_params 3 2 1) [] =
     \<lparr>outcome = ReturnedEmpty IndexError, trace = [ReportError IndexError, InfoTraceback],
      output_ds = None\<rparr>"
proof -
  let ?p = "scene_params (- 1) 2 1"
  let ?q = "scene_params 3 2 1"
  have ly: "raster_layer ?p = Some scene" "raster_layer ?q = Some scene"
    by (simp_all add: scene_params_def)
  have ne: "raster_bands scene \<noteq> []" by (simp add: scene_def)
  have nc: "True \<notin> set []" by simp
  have me: "method_index ?p \<notin> {0, 1, 2}" "method_index ?q \<notin> {0, 1, 2}"
    by (simp_all add: scene_params_def)
  have rp: "- 3 \<le> method_index ?p \<and> method_index ?p < 0" by (simp add: scene_params_def)
  have rq: "3 \<le> method_index ?q \<or> method_index ?q < - 3" by (simp add: scene_params_def)
  from method_index_outside [OF ly(2) ne nc me(2), of ub_zero] rq
  have fail: "processAlgorithm ub_zero ?q [] =
     \<lparr>outcome = ReturnedEmpty IndexError, trace = [ReportError IndexError, InfoTraceback],
      output_ds = None\<rparr>"
    by blast
  from method_index_outside [OF ly(1) ne nc me(1), of ub_zero] rp
  obtain out where
    o: "outcome (processAlgorithm ub_zero ?p []) = ReturnedOutput (output_path ?p)"
    and s: "output_ds (processAlgorithm ub_zero ?p []) = Some out"
    and b: "\<forall>j<length (raster_bands scene). \<not> all_nodata (raster_bands scene ! j) \<longrightarrow>
             out_bands out ! j =
               \<lparr>pixels = replicate (length (band_data (raster_bands scene ! j))) 0,
                out_nodata = Some 0\<rparr>"
    by blast
  have i: "0 < length (raster_bands scene)" "2 < length (raster_bands scene)"
    by (simp_all add: scene_def)
  have v: "\<not> all_nodata (raster_bands scene ! 0)" "\<not> all_nodata (raster_bands scene ! 2)"
    by (simp_all add: all_nodata_def scene_def band_mask_def)
  have l: "replicate (length (band_data (raster_bands scene ! 0))) (0 :: uint8) = [0, 0, 0]"
    "replicate (length (band_data (raster_bands scene ! 2))) (0 :: uint8) = [0, 0, 0]"
    by (simp_all add: scene_def numeral_3_eq_3)
  from b [rule_format, OF i(1) v(1)] l(1)
  have b0: "out_bands out ! 0 = \<lparr>pixels = [0, 0, 0], out_nodata = Some 0\<rparr>" by simp
  from b [rule_format, OF i(2) v(2)] l(2)
  have b2: "out_bands out ! 2 = \<lparr>pixels = [0, 0, 0], out_nodata = Some 0\<rparr>" by simp
  from o have o': "outcome (processAlgorithm ub_zero ?p []) = ReturnedOutput ''out.tif''"
    by (simp add: scene_params_def)
  from o' s b0 b2 fail show ?thesis by blast
qed

section \<open>Gamma outside its declared range\<close>

lemma enhance_gamma_unused:
  "m \<noteq> 2 \<Longrightarrow> enhance ub m cp g v ks out = enhance ub m cp g' v ks out"
  by (simp add: enhance_def)

lemma process_band_gamma_unused:
  "m \<noteq> 2 \<Longrightarrow> process_band ub m cp g b = process_band ub m cp g' b"
  by (simp add: process_band_def Let_def enhance_gamma_unused [of m ub cp g _ _ _ g'])

lemma band_loop_gamma_unused:
  "m \<noteq> 2 \<Longrightarrow> band_loop ub m cp g n i bs cs tr out = band_loop ub m cp g' n i bs cs tr out"
proof (induction bs arbitrary: i cs tr out)
  case Nil
  then show ?case by simp
next
  case (Cons b bs)
  from Cons.prems have "process_band ub m cp g b = process_band ub m cp g' b"
    by (rule process_band_gamma_unused)
  with Cons show ?case
    by (simp split: band_result.splits)
qed

lemma process_band_gamma_raises:
  assumes "process_band ub 2 cp g b = Raised e"
  shows "e = ZeroDivisionError \<and> g = 0"
  using assms
  by (auto simp: process_band_def enhance_def gamma_correction_def py_truediv_def Let_def
           split: if_splits sum.splits)

lemma band_loop_gamma_result:
  assumes "band_loop ub 2 cp g n i bs cs tr out = (r, tr', out')"
  shows "(\<exists>s. tr' = tr @ s) \<and>
         (r = None \<or> r = Some ZeroDivisionError \<and> g = 0 \<and> (\<exists>j. ReadBand j \<in> set tr'))"
  using assms
proof (induction bs arbitrary: i cs tr out)
  case Nil
  then show ?case by simp
next
  case (Cons b bs)
  show ?case
  proof (cases "isCanceled cs")
    case True
    with Cons.prems show ?thesis by auto
  next
    case False
    show ?thesis
    proof (cases "process_band ub 2 cp g b")
      case Skipped
      with False Cons.prems
      have "band_loop ub 2 cp g n (i + 1) bs (tl cs)
              (tr @ [IsCanceled False, InfoBand i n, ReadBand i, WarnEmpty i]) out = (r, tr', out')"
        by simp
      from Cons.IH [OF this] show ?thesis by auto
    next
      case (Raised e)
      from process_band_gamma_raises [OF Raised] Raised False Cons.prems show ?thesis by auto
    next
      case (Written px)
      with False Cons.prems
      have "band_loop ub 2 cp g n (i + 1) bs (tl cs)
              (tr @ [IsCanceled False, InfoBand i n, ReadBand i, WriteBand i])
              (write_band out i px) = (r, tr', out')"
        by simp
      from Cons.IH [OF this] show ?thesis by auto
    qed
  qed
qed

lemma gamma_run:
  assumes ly: "raster_layer p = Some ds" and ne: "raster_bands ds \<noteq> []"
    and me: "method_index p = 2"
  shows "take 2 (trace (processAlgorithm ub p cs)) =
       [InfoProcessing (length (raster_bands ds)) ''Gamma Correction'',
        CreateOutput (output_path p)] \<and>
     output_ds (processAlgorithm ub p cs) \<noteq> None \<and>
     (outcome (processAlgorithm ub p cs) = ReturnedOutput (output_path p) \<or>
      gamma p = 0 \<and> outcome (processAlgorithm ub p cs) = ReturnedEmpty ZeroDivisionError \<and>
      (\<exists>j. ReadBand j \<in> set (trace (processAlgorithm ub p cs))))"
proof -
  let ?n = "length (raster_bands ds)"
  let ?tr = "[InfoProcessing ?n ''Gamma Correction'', CreateOutput (output_path p)]"
  have nm: "py_getitem methods (method_index p) = Inr ''Gamma Correction''"
    using me by (simp add: py_getitem_def methods_def)
  obtain r tr' out' where L: "band_loop ub 2 (cut_percent p) (gamma p) ?n 1 (raster_bands ds) cs
      ?tr (create_output (output_path p) ds) = (r, tr', out')"
    by (metis prod_cases3)
  from band_loop_gamma_result [OF L] obtain s where
    pre: "tr' = ?tr @ s"
    and res: "r = None \<or> r = Some ZeroDivisionError \<and> gamma p = 0 \<and> (\<exists>j. ReadBand j \<in> set tr')"
    by blast
  show ?thesis
  proof (cases r)
    case None
    with ly ne nm me L pre show ?thesis
      by (simp add: processAlgorithm_def Let_def)
  next
    case (Some e)
    with res have e: "e = ZeroDivisionError" "gamma p = 0" "\<exists>j. ReadBand j \<in> set tr'" by auto
    with Some ly ne nm me L pre show ?thesis
      by (auto simp: processAlgorithm_def Let_def caught_def)
  qed
qed

text \<open>
  C3, amended. \<^verbatim>\<open>processAlgorithm\<close> does not validate gamma. A gamma of 0 or less
  lies outside the range that the declaration of the GAMMA parameter admits, and that
  declaration is the only place where the range appears. With a method index other than
  2, without a layer, or on a raster without bands, the run ends exactly as it does with
  any other gamma. With method index 2, on a raster that has a band, nothing is rejected
  at the start: the trace begins with the start message and the creation of the output,
  the output dataset exists, and the run returns the output path, except that for
  gamma 0 it can end in the handler with ZeroDivisionError, after a band has been read.
\<close>

theorem gamma_not_validated:
  assumes "gamma p \<le> 0"
  shows "\<not> within_declared_range GAMMA_parameter (gamma p) \<and>
     (method_index p \<noteq> 2 \<or> raster_layer p = None \<or>
      (\<exists>ds. raster_layer p = Some ds \<and> raster_bands ds = []) \<longrightarrow>
        (\<forall>g. processAlgorithm ub (p\<lparr>gamma := g\<rparr>) cs = processAlgorithm ub p cs)) \<and>
     (method_index p = 2 \<longrightarrow>
        (\<forall>ds. raster_layer p = Some ds \<longrightarrow> raster_bands ds \<noteq> [] \<longrightarrow>
           take 2 (trace (processAlgorithm ub p cs)) =
             [InfoProcessing (length (raster_bands ds)) ''Gamma Correction'',
              CreateOutput (output_path p)] \<and>
           output_ds (processAlgorithm ub p cs) \<noteq> None \<and>
           (outcome (processAlgorithm ub p cs) = ReturnedOutput (output_path p) \<or>
            gamma p = 0 \<and>
            outcome (processAlgorithm ub p cs) = ReturnedEmpty ZeroDivisionError \<and>
            (\<exists>j. ReadBand j \<in> set (trace (processAlgorithm ub p cs))))))"
proof -
  have A: "\<not> within_declared_range GAMMA_parameter (gamma p)"
    using assms by (simp add: within_declared_range_def GAMMA_parameter_def)
  have B1: "processAlgorithm ub (p\<lparr>gamma := g\<rparr>) cs = processAlgorithm ub p cs"
    if "method_index p \<noteq> 2" for g
    using band_loop_gamma_unused [OF that, of ub "cut_percent p" g _ _ _ cs _ _ "gamma p"]
    by (simp add: processAlgorithm_def Let_def split: option.splits sum.splits prod.splits)
  have B2: "processAlgorithm ub (p\<lparr>gamma := g\<rparr>) cs = processAlgorithm ub p cs"
    if "raster_layer p = None \<or> (\<exists>ds. raster_layer p = Some ds \<and> raster_bands ds = [])" for g
    using that by (auto simp: processAlgorithm_def)
  have B: "processAlgorithm ub (p\<lparr>gamma := g\<rparr>) cs = processAlgorithm ub p cs"
    if "method_index p \<noteq> 2 \<or> raster_layer p = None \<or>
        (\<exists>ds. raster_layer p = Some ds \<and> raster_bands ds = [])" for g
    using that B1 B2 by blast
  have C: "take 2 (trace (processAlgorithm ub p cs)) =
             [InfoProcessing (length (raster_bands ds)) ''Gamma Correction'',
              CreateOutput (output_path p)] \<and>
           output_ds (processAlgorithm ub p cs) \<noteq> None \<and>
           (outcome (processAlgorithm ub p cs) = ReturnedOutput (output_path p) \<or>
            gamma p = 0 \<and>
            outcome (processAlgorithm ub p cs) = ReturnedEmpty ZeroDivisionError \<and>
            (\<exists>j. ReadBand j \<in> set (trace (processAlgorithm ub p cs))))"
    if "method_index p = 2" "raster_layer p = Some ds" "raster_bands ds \<noteq> []" for ds
    using gamma_run [OF that(2) that(3) that(1)] .
  from A B C show ?thesis by blast
qed

theorem gamma_not_validated_witness:
  "gamma (scene_params 0 0 (- 1)) \<le> 0 \<and>
   \<not> within_declared_range GAMMA_parameter (gamma (scene_params 0 0 (- 1))) \<and>
   processAlgorithm ub_zero ((scene_params 0 0 (- 1))\<lparr>gamma := 1\<rparr>) [] =
     processAlgorithm ub_zero (scene_params 0 0 (- 1)) [] \<and>
   gamma (scene_params 2 0 (- 1)) \<le> 0 \<and>
   take 2 (trace (processAlgorithm ub_zero (scene_params 2 0 (- 1)) [])) =
     [InfoProcessing 3 ''Gamma Correction'', CreateOutput ''out.tif''] \<and>
   output_ds (processAlgorithm ub_zero (scene_params 2 0 (- 1)) []) \<noteq> None \<and>
   outcome (processAlgorithm ub_zero (scene_params 2 0 (- 1)) []) = ReturnedOutput ''out.tif''"
proof -
  let ?p = "scene_params 0 0 (- 1)" and ?q = "scene_params 2 0 (- 1)"
  have hp: "gamma ?p \<le> 0" and hq: "gamma ?q \<le> 0" by (simp_all add: scene_params_def)
  have mp: "method_index ?p \<noteq> 2" and mq: "method_index ?q = 2"
    by (simp_all add: scene_params_def)
  have ly: "raster_layer ?q = Some scene" by (simp add: scene_params_def)
  have ne: "raster_bands scene \<noteq> []" by (simp add: scene_def)
  have g: "gamma ?q \<noteq> 0" by (simp add: scene_params_def)
  from gamma_not_validated [OF hp, of ub_zero "[]"] mp
  have P: "\<not> within_declared_range GAMMA_parameter (gamma ?p)"
    "processAlgorithm ub_zero (?p\<lparr>gamma := 1\<rparr>) [] = processAlgorithm ub_zero ?p []"
    by blast+
  from gamma_not_validated [OF hq, of ub_zero "[]"] mq ly ne g
  have Q: "take 2 (trace (processAlgorithm ub_zero ?q [])) =
       [InfoProcessing (length (raster_bands scene)) ''Gamma Correction'',
        CreateOutput (output_path ?q)]"
    "output_ds (processAlgorithm ub_zero ?q []) \<noteq> None"
    "outcome (processAlgorithm ub_zero ?q []) = ReturnedOutput (output_path ?q)"
    by blast+
  from Q(1) have Q1: "take 2 (trace (processAlgorithm ub_zero ?q [])) =
       [InfoProcessing 3 ''Gamma Correction'', CreateOutput ''out.tif'']"
    by (simp add: scene_def scene_params_def)
  from Q(3) have Q3: "outcome (processAlgorithm ub_zero ?q []) = ReturnedOutput ''out.tif''"
    by (simp add: scene_params_def)
  from hp hq P Q1 Q(2) Q3 show ?thesis by blast
qed

lemma gamma_minus_one_run:
  "outcome (processAlgorithm ub_zero (scene_params 2 0 (- 1)) []) = ReturnedOutput ''out.tif''"
proof -
  let ?q = "scene_params 2 0 (- 1)"
  have ly: "raster_layer ?q = Some scene" and mq: "method_index ?q = 2"
    and g: "gamma ?q \<noteq> 0"
    by (simp_all add: scene_params_def)
  have ne: "raster_bands scene \<noteq> []" by (simp add: scene_def)
  from gamma_run [OF ly ne mq, of ub_zero "[]"] g show ?thesis
    by (simp add: scene_params_def)
qed

theorem gamma_not_validated_counterexample:
  "gamma (scene_params 2 0 (- 1)) \<le> 0 \<and>
   outcome (processAlgorithm ub_zero (scene_params 2 0 (- 1)) []) = ReturnedOutput ''out.tif'' \<and>
   outcome (processAlgorithm ub_zero (scene_params 2 0 0) []) = ReturnedEmpty ZeroDivisionError \<and>
   trace (processAlgorithm ub_zero (scene_params 2 0 0) []) =
     [InfoProcessing 3 ''Gamma Correction'', CreateOutput ''out.tif'', IsCanceled False,
      InfoBand 1 3, ReadBand 1, ReportError ZeroDivisionError, InfoTraceback]"
proof -
  have a: "gamma (scene_params 2 0 (- 1)) \<le> 0" by (simp add: scene_params_def)
  have b: "outcome (processAlgorithm ub_zero (scene_params 2 0 0) []) =
      ReturnedEmpty ZeroDivisionError \<and>
    trace (processAlgorithm ub_zero (scene_params 2 0 0) []) =
     [InfoProcessing 3 ''Gamma Correction'', CreateOutput ''out.tif'', IsCanceled False,
      InfoBand 1 3, ReadBand 1, ReportError ZeroDivisionError, InfoTraceback]"
    by (simp add: run_defs gamma_correction_def amin_def amax_def py_truediv_def)
  from a gamma_minus_one_run b show ?thesis by blast
qed

section \<open>Gamma correction with gamma 1\<close>

lemma amin_le: "x \<in> set xs \<Longrightarrow> amin xs \<le> x"
  by (simp add: amin_def)

lemma le_amax: "x \<in> set xs \<Longrightarrow> x \<le> amax xs"
  by (simp add: amax_def)




section \<open>Linear stretch\<close>

lemma astype_uint8_floor:
  "0 \<le> x \<Longrightarrow> x < 256 \<Longrightarrow> astype_uint8 ub (Fin x) = word_of_int \<lfloor>x\<rfloor>"
  by (simp add: c_trunc_def)

lemma sort_nth_0: "xs \<noteq> [] \<Longrightarrow> sort xs ! 0 = Min (set xs)"
proof -
  assume ne: "xs \<noteq> []"
  then have l: "0 < length (sort xs)" by simp
  have "Min (set (sort xs)) = sort xs ! 0"
  proof (rule Min_eqI)
    show "finite (set (sort xs))" by simp
    show "sort xs ! 0 \<in> set (sort xs)" using l by (rule nth_mem)
    fix y assume "y \<in> set (sort xs)"
    then obtain i where "i < length (sort xs)" "sort xs ! i = y"
      by (metis in_set_conv_nth)
    then show "sort xs ! 0 \<le> y"
      using sorted_nth_mono [of "sort xs" 0 i] by auto
  qed
  then show ?thesis by simp
qed

lemma sort_nth_last: "xs \<noteq> [] \<Longrightarrow> sort xs ! (length xs - 1) = Max (set xs)"
proof -
  assume ne: "xs \<noteq> []"
  then have l: "length xs - 1 < length (sort xs)" by (cases xs) simp_all
  have "Max (set (sort xs)) = sort xs ! (length xs - 1)"
  proof (rule Max_eqI)
    show "finite (set (sort xs))" by simp
    show "sort xs ! (length xs - 1) \<in> set (sort xs)" using l by (rule nth_mem)
    fix y assume "y \<in> set (sort xs)"
    then obtain i where "i < length (sort xs)" "sort xs ! i = y"
      by (metis in_set_conv_nth)
    then show "y \<le> sort xs ! (length xs - 1)"
      using sorted_nth_mono [of "sort xs" i "length xs - 1"] l by auto
  qed
  then show ?thesis by simp
qed

lemma np_percentile_0:
  assumes ne: "xs \<noteq> []" and fl: "\<forall>x\<in>set xs. binary64 x = x"
  shows "np_percentile xs 0 = Inr (amin xs)"
proof -
  have m: "Min (set xs) \<in> set xs" using ne by (intro Min_in) simp_all
  with fl have f: "binary64 (Min (set xs)) = Min (set xs)" by blast
  show ?thesis
  proof (cases "length xs = 1")
    case True
    then show ?thesis
      by (simp add: np_percentile_def amin_def sort_nth_0 [OF ne] binary64_0 binary64_1 f)
  next
    case False
    with ne have "1 < length xs" by (cases xs) auto
    then have "\<not> real (length xs - 1) \<le> 0" by simp
    then show ?thesis
      by (simp add: np_percentile_def amin_def sort_nth_0 [OF ne] binary64_0 f)
  qed
qed

lemma np_percentile_100:
  assumes ne: "xs \<noteq> []" and fl: "\<forall>x\<in>set xs. binary64 x = x"
    and len: "length xs \<le> 2 ^ 53"
  shows "np_percentile xs 100 = Inr (amax xs)"
proof -
  let ?n = "length xs"
  have m: "Max (set xs) \<in> set xs" using ne by (intro Max_in) simp_all
  with fl have f: "binary64 (Max (set xs)) = Max (set xs)" by blast
  have "?n - 1 < 2 ^ 53" using ne len by (cases xs) auto
  then have vi: "binary64 (real (?n - 1)) = real (?n - 1)" by (rule binary64_of_nat)
  have "binary64 1 \<le> binary64 (real (?n - 1) + 1)" by (intro binary64_mono) simp_all
  then have t: "1 / 2 \<le> binary64 (real (?n - 1) + 1)" by (simp add: binary64_1)
  show ?thesis
    unfolding np_percentile_def Let_def
    using t vi f sort_nth_last [OF ne] by (simp add: amax_def binary64_0 binary64_1)
qed

lemma stretch_value_bounds:
  assumes "low < high"
  shows "0 \<le> binary64 (binary64 (binary64 (np_clip x low high - low) / binary64 (high - low)) * 255)"
    and "binary64 (binary64 (binary64 (np_clip x low high - low) / binary64 (high - low)) * 255)
           \<le> 255"
proof -
  let ?a = "binary64 (np_clip x low high - low)" and ?b = "binary64 (high - low)"
  have c: "0 \<le> np_clip x low high - low" "np_clip x low high - low \<le> high - low"
    using assms by (auto simp: np_clip_def)
  have b: "0 < ?b" using assms by (intro binary64_pos) simp
  have a: "0 \<le> ?a" using c(1) by (rule binary64_nonneg)
  have ab: "?a \<le> ?b" using c by (rule binary64_mono)
  have q0: "0 \<le> ?a / ?b" using a b by simp
  have q1: "?a / ?b \<le> 1" using ab b by simp
  have r0: "0 \<le> binary64 (?a / ?b)" using q0 by (rule binary64_nonneg)
  have "binary64 (?a / ?b) \<le> binary64 1" using q0 q1 by (rule binary64_mono)
  then have r1: "binary64 (?a / ?b) \<le> 1" by (simp only: binary64_1)
  have p0: "0 \<le> binary64 (?a / ?b) * 255" using r0 by simp
  have p1: "binary64 (?a / ?b) * 255 \<le> 255" using r1 by simp
  show "0 \<le> binary64 (binary64 (?a / ?b) * 255)" using p0 by (rule binary64_nonneg)
  have "binary64 (binary64 (?a / ?b) * 255) \<le> binary64 255" using p0 p1 by (rule binary64_mono)
  then show "binary64 (binary64 (?a / ?b) * 255) \<le> 255" by (simp only: binary64_255)
qed

lemma linear_stretch_value:
  assumes "low < high"
  shows "astype_uint8 ub (rounded (np_multiply
           (rounded (np_divide (binary64 (np_clip x low high - low)) (binary64 (high - low))))
           255)) =
         word_of_int \<lfloor>binary64 (binary64 (binary64 (np_clip x low high - low) /
                                              binary64 (high - low)) * 255)\<rfloor>"
proof -
  have b: "binary64 (high - low) \<noteq> 0" using binary64_pos [of "high - low"] assms by simp
  from stretch_value_bounds [OF assms, of x] show ?thesis
    by (simp add: np_divide_def rounded_def b astype_uint8_floor del: astype_uint8.simps)
qed

lemma np_percentile_below:
  assumes q: "binary64 (q / 100) = quant" and q0: "0 \<le> quant" and q1: "quant \<le> 1"
    and vi: "binary64 (real (length a - 1) * quant) = vi" and bl: "vi < real (length a - 1)"
    and k0: "real k \<le> vi" and k1: "vi < real k + 1"
    and t: "binary64 (vi - real k) = t"
    and lo: "sort a ! k = lo" and hi: "sort a ! (k + 1) = hi"
    and d: "binary64 (hi - lo) = d"
    and r: "(if 1 / 2 \<le> t then binary64 (hi - binary64 (d * binary64 (1 - t)))
             else binary64 (lo + binary64 (d * t))) = r"
  shows "np_percentile a q = Inr r"
proof -
  have f: "\<lfloor>vi\<rfloor> = int k" using k0 k1 by linarith
  then have n: "nat \<lfloor>vi\<rfloor> = k" by simp
  have fr: "real_of_int \<lfloor>vi\<rfloor> = real k" using f by simp
  have c1: "(quant < 0 \<or> 1 < quant) = False" using q0 q1 by auto
  have c2: "(real (length a - 1) \<le> vi) = False" using bl by auto
  show ?thesis
    unfolding np_percentile_def Let_def q vi c1 c2 if_False n fr t lo hi d r ..
qed

text \<open>
  C2, amended. For every band with \<open>high > low\<close>, where \<open>low\<close> and \<open>high\<close> are the
  percentiles at \<open>cutPercent\<close> and \<open>100 - cutPercent\<close> of the valid samples, linear
  stretch maps each valid sample \<open>x\<close> to the truncation (not the rounding) of the
  binary64 value of \<open>(clip(x, low, high) - low) / (high - low) * 255\<close>, every operation
  rounded to binary64; that value lies between 0 and 255. With \<open>cutPercent = 0\<close> the
  two percentiles are the least and the greatest valid sample, so when these are 0 and
  100 the output is the truncation of the binary64 value of \<open>x / 100 * 255\<close>. The
  samples and the percentage are binary64 numbers of moderate magnitude.
\<close>

theorem linear_stretch_truncates:
  assumes ne: "valid_data \<noteq> []"
    and md: "\<forall>x\<in>set valid_data. moderate x"
    and mc: "moderate cp"
    and len: "length valid_data \<le> 2 ^ 53"
    and lo: "np_percentile valid_data cp = Inr low"
    and hi: "np_percentile valid_data (binary64 (100 - cp)) = Inr high"
    and lt: "low < high"
  shows "linear_stretch ub cp valid_data =
       Inr (map (\<lambda>x. word_of_int
              \<lfloor>binary64 (binary64 (binary64 (np_clip x low high - low) /
                                       binary64 (high - low)) * 255)\<rfloor>) valid_data) \<and>
     (\<forall>x. 0 \<le> binary64 (binary64 (binary64 (np_clip x low high - low) /
                                      binary64 (high - low)) * 255) \<and>
          binary64 (binary64 (binary64 (np_clip x low high - low) /
                                binary64 (high - low)) * 255) \<le> 255) \<and>
     (cp = 0 \<longrightarrow> low = amin valid_data \<and> high = amax valid_data) \<and>
     (cp = 0 \<and> low = 0 \<and> high = 100 \<longrightarrow>
        linear_stretch ub cp valid_data =
          Inr (map (\<lambda>x. word_of_int \<lfloor>binary64 (binary64 (x / 100) * 255)\<rfloor>) valid_data))"
proof -
  let ?Y = "\<lambda>x. binary64 (binary64 (binary64 (np_clip x low high - low) /
                                      binary64 (high - low)) * 255)"
  from md have fl: "\<forall>x\<in>set valid_data. binary64 x = x" by (simp add: moderate_def)
  have A: "linear_stretch ub cp valid_data = Inr (map (\<lambda>x. word_of_int \<lfloor>?Y x\<rfloor>) valid_data)"
    by (simp add: linear_stretch_def lo hi linear_stretch_value [OF lt]
             del: astype_uint8.simps)
  have R: "\<forall>x. 0 \<le> ?Y x \<and> ?Y x \<le> 255"
    using stretch_value_bounds [OF lt] by blast
  have B: "low = amin valid_data \<and> high = amax valid_data" if z: "cp = 0"
  proof -
    from hi z have "np_percentile valid_data 100 = Inr high" by (simp add: binary64_100)
    with lo z np_percentile_0 [OF ne fl] np_percentile_100 [OF ne fl len]
    show ?thesis by simp
  qed
  have C: "linear_stretch ub cp valid_data =
          Inr (map (\<lambda>x. word_of_int \<lfloor>binary64 (binary64 (x / 100) * 255)\<rfloor>) valid_data)"
    if c: "cp = 0 \<and> low = 0 \<and> high = 100"
  proof -
    from c have l: "low = 0" and h: "high = 100" by blast+
    from B c have m: "amin valid_data = 0" "amax valid_data = 100" by simp_all
    have "?Y x = binary64 (binary64 (x / 100) * 255)" if x: "x \<in> set valid_data" for x
    proof -
      have "np_clip x low high = x"
        using amin_le [OF x] le_amax [OF x] m l h by (simp add: np_clip_def)
      moreover have "binary64 x = x" using fl x by blast
      ultimately show ?thesis by (simp add: l h binary64_100)
    qed
    then have "map (\<lambda>x. word_of_int \<lfloor>?Y x\<rfloor>) valid_data =
          map (\<lambda>x. word_of_int \<lfloor>binary64 (binary64 (x / 100) * 255)\<rfloor> :: uint8) valid_data"
      by simp
    with A show ?thesis by simp
  qed
  from A R B C show ?thesis by blast
qed

text \<open>
  The percentiles at 2 and 98 of the band \<open>[51, 37, 52]\<close>, and the value of its sample
  51: the numbers 37.56, 51.96 and 237.99999999999997 of binary64.
\<close>

lemma percentile_2_of_51_37_52:
  "np_percentile [51, 37, 52] 2 = Inr (5286100062626120 / 2 ^ 47)"
proof (rule np_percentile_below [where quant = "5764607523034235 / 2 ^ 58"
      and vi = "5764607523034235 / 2 ^ 57" and k = 0 and t = "5764607523034235 / 2 ^ 57"
      and lo = 37 and hi = 51 and d = 14])
  let ?t = "5764607523034235 / 2 ^ 57 :: real"
  show "binary64 (2 / 100) = 5764607523034235 / 2 ^ 58"
    by (rule binary64_near [where k = 5764607523034235 and n = 58]) simp_all
  show "(0 :: real) \<le> 5764607523034235 / 2 ^ 58" by simp
  show "(5764607523034235 / 2 ^ 58 :: real) \<le> 1" by simp
  show "binary64 (real (length [51, 37, 52 :: real] - 1) * (5764607523034235 / 2 ^ 58)) = ?t"
    by (rule binary64_near [where k = 5764607523034235 and n = 57]) simp_all
  show "?t < real (length [51, 37, 52 :: real] - 1)" by simp
  show "real 0 \<le> ?t" by simp
  show "?t < real 0 + 1" by simp
  show "binary64 (?t - real 0) = ?t"
    by (rule binary64_near [where k = 5764607523034235 and n = 57]) simp_all
  show "sort [51, 37, 52 :: real] ! 0 = 37" by simp
  show "sort [51, 37, 52 :: real] ! (0 + 1) = 51" by simp
  show "binary64 (51 - 37) = 14"
    by (rule binary64_near [where k = 7881299347898368 and n = 49]) simp_all
  show "(if 1 / 2 \<le> ?t then binary64 (51 - binary64 (14 * binary64 (1 - ?t)))
         else binary64 (37 + binary64 (14 * ?t))) = 5286100062626120 / 2 ^ 47"
  proof -
    have n: "(1 / 2 \<le> ?t) = False" by simp
    have m: "binary64 (14 * ?t) = 5044031582654956 / 2 ^ 53"
      by (rule binary64_near [where k = 5044031582654956 and n = 53]) simp_all
    have r: "binary64 (37 + 5044031582654956 / 2 ^ 53) = 5286100062626120 / 2 ^ 47"
      by (rule binary64_near [where k = 5286100062626120 and n = 47]) simp_all
    show ?thesis unfolding n if_False m r ..
  qed
qed

lemma percentile_98_of_51_37_52:
  "np_percentile [51, 37, 52] 98 = Inr (7312719894942843 / 2 ^ 47)"
proof (rule np_percentile_below [where quant = "8827055269646172 / 2 ^ 53"
      and vi = "8827055269646172 / 2 ^ 52" and k = 1 and t = "8646911284551352 / 2 ^ 53"
      and lo = 51 and hi = 52 and d = 1])
  let ?vi = "8827055269646172 / 2 ^ 52 :: real"
  let ?t = "8646911284551352 / 2 ^ 53 :: real"
  show "binary64 (98 / 100) = 8827055269646172 / 2 ^ 53"
    by (rule binary64_near [where k = 8827055269646172 and n = 53]) simp_all
  show "(0 :: real) \<le> 8827055269646172 / 2 ^ 53" by simp
  show "(8827055269646172 / 2 ^ 53 :: real) \<le> 1" by simp
  show "binary64 (real (length [51, 37, 52 :: real] - 1) * (8827055269646172 / 2 ^ 53)) = ?vi"
    by (rule binary64_near [where k = 8827055269646172 and n = 52]) simp_all
  show "?vi < real (length [51, 37, 52 :: real] - 1)" by simp
  show "real 1 \<le> ?vi" by simp
  show "?vi < real 1 + 1" by simp
  show "binary64 (?vi - real 1) = ?t"
    by (rule binary64_near [where k = 8646911284551352 and n = 53]) simp_all
  show "sort [51, 37, 52 :: real] ! 1 = 51" by simp
  show "sort [51, 37, 52 :: real] ! (1 + 1) = 52" by simp
  show "binary64 (52 - 51) = 1"
    by (rule binary64_near [where k = 4503599627370496 and n = 52]) simp_all
  show "(if 1 / 2 \<le> ?t then binary64 (52 - binary64 (1 * binary64 (1 - ?t)))
         else binary64 (51 + binary64 (1 * ?t))) = 7312719894942843 / 2 ^ 47"
  proof -
    have n: "(1 / 2 \<le> ?t) = True" by simp
    have o: "binary64 (1 - ?t) = 5764607523034240 / 2 ^ 57"
      by (rule binary64_near [where k = 5764607523034240 and n = 57]) simp_all
    have m: "binary64 (1 * (5764607523034240 / 2 ^ 57)) = 5764607523034240 / 2 ^ 57"
      by (rule binary64_near [where k = 5764607523034240 and n = 57]) simp_all
    have r: "binary64 (52 - 5764607523034240 / 2 ^ 57) = 7312719894942843 / 2 ^ 47"
      by (rule binary64_near [where k = 7312719894942843 and n = 47]) simp_all
    show ?thesis unfolding n if_True o m r ..
  qed
qed

lemma stretch_values_51_37_52:
  fixes low high :: real
  defines "low \<equiv> 5286100062626120 / 2 ^ 47" and "high \<equiv> 7312719894942843 / 2 ^ 47"
  shows "map (\<lambda>x. word_of_int
            \<lfloor>binary64 (binary64 (binary64 (np_clip x low high - low) /
                                     binary64 (high - low)) * 255)\<rfloor>) [51, 37, 52] =
         [237, 0, 255 :: uint8]"
proof -
  let ?D = "8106479329266892 / 2 ^ 49 :: real"
  have d: "binary64 (high - low) = ?D"
    unfolding low_def high_def
    by (rule binary64_near [where k = 8106479329266892 and n = 49]) simp_all
  have c1: "np_clip 51 low high = 51" by (simp add: np_clip_def low_def high_def)
  have c2: "np_clip 37 low high = low" by (simp add: np_clip_def low_def high_def)
  have c3: "np_clip 52 low high = high" by (simp add: np_clip_def low_def high_def)
  have n1: "binary64 (51 - low) = 7566047373982432 / 2 ^ 49"
    unfolding low_def
    by (rule binary64_near [where k = 7566047373982432 and n = 49]) simp_all
  have q1: "binary64 (7566047373982432 / 2 ^ 49 / ?D) = 8406719304424925 / 2 ^ 53"
    by (rule binary64_near [where k = 8406719304424925 and n = 53]) simp_all
  have y1: "binary64 (8406719304424925 / 2 ^ 53 * 255) = 8373880557142015 / 2 ^ 45"
    by (rule binary64_near [where k = 8373880557142015 and n = 45]) simp_all
  have f1: "\<lfloor>8373880557142015 / 2 ^ 45 :: real\<rfloor> = 237" by simp
  have v1: "\<lfloor>binary64 (binary64 (binary64 (np_clip 51 low high - low) /
                binary64 (high - low)) * 255)\<rfloor> = 237"
    unfolding c1 n1 d q1 y1 f1 ..
  have n2: "binary64 (low - low) = 0" by (simp add: binary64_0)
  have q2: "binary64 (0 / ?D) = 0" by (simp add: binary64_0)
  have y2: "binary64 (0 * 255) = 0" by (simp add: binary64_0)
  have v2: "\<lfloor>binary64 (binary64 (binary64 (np_clip 37 low high - low) /
                binary64 (high - low)) * 255)\<rfloor> = 0"
    unfolding c2 n2 d q2 y2 by simp
  have q3: "binary64 (?D / ?D) = 1" by (simp add: binary64_1)
  have y3: "binary64 (1 * 255) = 255" by (simp add: binary64_255)
  have v3: "\<lfloor>binary64 (binary64 (binary64 (np_clip 52 low high - low) /
                binary64 (high - low)) * 255)\<rfloor> = 255"
    unfolding c3 d q3 y3 by simp
  show ?thesis unfolding list.map v1 v2 v3 by simp
qed

text \<open>
  The band \<open>[0, 59.99999999999999, 100]\<close> at \<open>cutPercent = 0\<close>: the middle sample is
  the binary64 number \<open>8444249301319679 / 2 ^ 47\<close>; its quotient by 100 rounds up, the
  product with 255 rounds to 153, and the exact value of \<open>x * 255 / 100\<close> is below 153.
\<close>

lemma stretch_values_0_60_100:
  "map (\<lambda>x. word_of_int \<lfloor>binary64 (binary64 (x / 100) * 255)\<rfloor>)
     [0, 8444249301319679 / 2 ^ 47, 100 :: real] = [0, 153, 255 :: uint8]"
proof -
  have q: "binary64 (8444249301319679 / 2 ^ 47 / 100) = 5404319552844595 / 2 ^ 53"
    by (rule binary64_near [where k = 5404319552844595 and n = 53]) simp_all
  have y: "binary64 (5404319552844595 / 2 ^ 53 * 255) = 153"
    by (rule binary64_near [where k = 5383208929591296 and n = 45]) simp_all
  have v2: "\<lfloor>binary64 (binary64 (8444249301319679 / 2 ^ 47 / 100) * 255)\<rfloor> = 153"
    unfolding q y by simp
  have v1: "\<lfloor>binary64 (binary64 (0 / 100) * 255)\<rfloor> = 0" by (simp add: binary64_0)
  have v3: "\<lfloor>binary64 (binary64 (100 / 100) * 255)\<rfloor> = 255"
    by (simp add: binary64_1 binary64_255)
  show ?thesis unfolding list.map v1 v2 v3 by simp
qed

theorem linear_stretch_truncates_witness:
  "np_percentile [0, 8444249301319679 / 2 ^ 47, 100] 0 = Inr 0 \<and>
   np_percentile [0, 8444249301319679 / 2 ^ 47, 100] (binary64 (100 - 0)) = Inr 100 \<and>
   moderate 0 \<and> moderate (8444249301319679 / 2 ^ 47) \<and> moderate 100 \<and>
   linear_stretch ub_zero 0 [0, 8444249301319679 / 2 ^ 47, 100] = Inr [0, 153, 255] \<and>
   \<lfloor>8444249301319679 / 2 ^ 47 * 255 / 100 :: real\<rfloor> = 152 \<and>
   np_percentile [51, 37, 52] 2 = Inr (5286100062626120 / 2 ^ 47) \<and>
   np_percentile [51, 37, 52] (binary64 (100 - 2)) = Inr (7312719894942843 / 2 ^ 47) \<and>
   moderate 2 \<and> moderate 51 \<and> moderate 37 \<and> moderate 52 \<and>
   linear_stretch ub_zero 2 [51, 37, 52] = Inr [237, 0, 255]"
proof -
  let ?x = "8444249301319679 / 2 ^ 47 :: real"
  let ?V = "[0, ?x, 100]"
  have mx: "moderate ?x"
    using binary64_div_pow2 [of 8444249301319679 47] by (simp add: moderate_def)
  have m0: "moderate 0" by (rule moderate_0)
  have m100: "moderate 100" and m2: "moderate 2" and m51: "moderate 51"
    and m37: "moderate 37" and m52: "moderate 52"
    by (simp_all add: moderate_def binary64_numeral)
  have ne: "?V \<noteq> []" by simp
  have md: "\<forall>x\<in>set ?V. moderate x" using m0 mx m100 by simp
  then have fl: "\<forall>x\<in>set ?V. binary64 x = x" by (simp add: moderate_def)
  have len: "length ?V \<le> 2 ^ 53" by simp
  have lo: "np_percentile ?V 0 = Inr 0"
    using np_percentile_0 [OF ne fl] by (simp add: amin_def)
  have h: "binary64 (100 - 0) = 100" by (simp add: binary64_100)
  have hi: "np_percentile ?V (binary64 (100 - 0)) = Inr 100"
    unfolding h using np_percentile_100 [OF ne fl len] by (simp add: amax_def)
  have lt: "(0 :: real) < 100" by simp
  from linear_stretch_truncates [OF ne md m0 len lo hi lt, of ub_zero]
  have "linear_stretch ub_zero 0 ?V =
     Inr (map (\<lambda>x. word_of_int \<lfloor>binary64 (binary64 (x / 100) * 255)\<rfloor>) ?V)"
    by blast
  then have A: "linear_stretch ub_zero 0 ?V = Inr [0, 153, 255]"
    by (simp only: stretch_values_0_60_100)
  have E: "\<lfloor>?x * 255 / 100\<rfloor> = 152" by simp
  let ?W = "[51, 37, 52 :: real]"
  let ?L = "5286100062626120 / 2 ^ 47 :: real" and ?H = "7312719894942843 / 2 ^ 47 :: real"
  have ne': "?W \<noteq> []" by simp
  have md': "\<forall>x\<in>set ?W. moderate x" using m51 m37 m52 by simp
  have len': "length ?W \<le> 2 ^ 53" by simp
  have lo': "np_percentile ?W 2 = Inr ?L" by (rule percentile_2_of_51_37_52)
  have h': "binary64 (100 - 2) = 98" by (simp add: binary64_numeral)
  have hi': "np_percentile ?W (binary64 (100 - 2)) = Inr ?H"
    unfolding h' by (rule percentile_98_of_51_37_52)
  have lt': "?L < ?H" by simp
  from linear_stretch_truncates [OF ne' md' m2 len' lo' hi' lt', of ub_zero]
  have "linear_stretch ub_zero 2 ?W =
     Inr (map (\<lambda>x. word_of_int
            \<lfloor>binary64 (binary64 (binary64 (np_clip x ?L ?H - ?L) /
                                     binary64 (?H - ?L)) * 255)\<rfloor>) ?W)"
    by blast
  then have B: "linear_stretch ub_zero 2 ?W = Inr [237, 0, 255]"
    by (simp only: stretch_values_51_37_52)
  from lo hi m0 mx m100 A E lo' hi' m2 m51 m37 m52 B show ?thesis by blast
qed

lemma linear_stretch_16_32_80: "linear_stretch ub 0 [16, 32, 80] = Inr [0, 63, 255]"
proof -
  have ne: "[16, 32, 80 :: real] \<noteq> []" by simp
  have fl: "\<forall>x\<in>set [16, 32, 80 :: real]. binary64 x = x"
    by (simp add: binary64_numeral)
  have len: "length [16, 32, 80 :: real] \<le> 2 ^ 53" by simp
  have lo: "np_percentile [16, 32, 80] 0 = Inr 16"
    using np_percentile_0 [OF ne fl] by (simp add: amin_def)
  have hi: "np_percentile [16, 32, 80] 100 = Inr 80"
    using np_percentile_100 [OF ne fl len] by (simp add: amax_def)
  show ?thesis
    by (simp add: linear_stretch_def lo hi binary64_100 binary64_0 binary64_1 binary64_255
          binary64_numeral binary64_quarter binary64_255_quarter np_clip_def np_divide_def
          rounded_def c_trunc_def)
qed

theorem linear_stretch_rounds_counterexample:
  "linear_stretch ub_zero 0 [16, 32, 80] = Inr [0, 63, 255] \<and>
   map (spec_linear_stretch 16 80) [16, 32, 80] = [0, 64, 255] \<and>
   map spec_rescale_0_100 [16, 32, 80] = [41, 82, 204]"
proof -
  have "map (spec_linear_stretch 16 80) [16, 32, 80] = [0, 64, 255]"
    by (simp add: spec_linear_stretch_def np_clip_def round_def)
  moreover have "map spec_rescale_0_100 [16, 32, 80] = [41, 82, 204]"
    by (simp add: spec_rescale_0_100_def round_def)
  ultimately show ?thesis using linear_stretch_16_32_80 [of ub_zero] by blast
qed

section \<open>Equalization is monotone\<close>

lemma unat_astype_uint8:
  "0 \<le> x \<Longrightarrow> x < 256 \<Longrightarrow> unat (astype_uint8 ub (Fin x)) = nat \<lfloor>x\<rfloor>"
proof -
  assume a: "0 \<le> x" "x < 256"
  then have "0 \<le> \<lfloor>x\<rfloor>" "\<lfloor>x\<rfloor> < 256" by (simp_all add: floor_less_iff)
  then have "unat (word_of_int \<lfloor>x\<rfloor> :: uint8) = nat \<lfloor>x\<rfloor>"
    by (simp add: unsigned_of_int take_bit_int_eq_self)
  with a show ?thesis by (simp add: astype_uint8_floor del: astype_uint8.simps)
qed

lemma astype_uint8_mono:
  assumes "0 \<le> x" "x \<le> y" "y < 256"
  shows "astype_uint8 ub (Fin x) \<le> astype_uint8 ub (Fin y)"
proof -
  have "nat \<lfloor>x\<rfloor> \<le> nat \<lfloor>y\<rfloor>" using assms by (simp add: floor_mono nat_mono)
  then show ?thesis
    using assms by (simp add: word_le_nat_alt unat_astype_uint8 del: astype_uint8.simps)
qed

lemma cumsum_from_sorted:
  "\<forall>h\<in>set hs. 0 \<le> h \<Longrightarrow>
   sorted (cumsum_from acc hs) \<and> (\<forall>c\<in>set (cumsum_from acc hs). acc \<le> c)"
proof (induction hs arbitrary: acc)
  case Nil
  then show ?case by simp
next
  case (Cons h hs)
  then have h: "0 \<le> h" and r: "\<forall>h\<in>set hs. 0 \<le> h" by simp_all
  from Cons.IH [OF r, of "acc + h"] h show ?case by fastforce
qed

lemma scale_cdf_sorted:
  assumes "sorted cdf"
  shows "sorted (scale_cdf ub cdf)"
proof (cases "Max (set cdf) > Min (set cdf)")
  case False
  have "sorted (map (\<lambda>c. 0 :: uint8) cdf)" by (induction cdf) auto
  with False show ?thesis by (simp add: scale_cdf_def)
next
  case True
  let ?lo = "Min (set cdf)" and ?hi = "Max (set cdf)"
  let ?f = "\<lambda>c. real_of_int ((c - ?lo) * 255) / real_of_int (?hi - ?lo)"
  have d: "0 < real_of_int (?hi - ?lo)" using True by simp
  have b: "0 \<le> ?f a \<and> ?f a < 256" if "a \<in> set cdf" for a
  proof -
    from that have "?lo \<le> a" "a \<le> ?hi" by simp_all
    then have n: "0 \<le> real_of_int ((a - ?lo) * 255)"
      and u: "real_of_int ((a - ?lo) * 255) \<le> real_of_int (?hi - ?lo) * 255" by simp_all
    from n d have "0 \<le> ?f a" by simp
    moreover from u d have "?f a \<le> 255" by (simp add: divide_le_eq)
    ultimately show ?thesis by simp
  qed
  have m: "?f a \<le> ?f c" if "a \<le> c" for a c
    using that d by (simp add: divide_right_mono)
  have "sorted_wrt (\<lambda>a c. astype_uint8 ub (Fin (?f a)) \<le> astype_uint8 ub (Fin (?f c))) cdf"
    using assms
  proof (rule sorted_wrt_mono_rel [rotated])
    fix a c assume "a \<in> set cdf" "c \<in> set cdf" "a \<le> c"
    then show "astype_uint8 ub (Fin (?f a)) \<le> astype_uint8 ub (Fin (?f c))"
      using b [of a] b [of c] m [of a c] by (intro astype_uint8_mono) simp_all
  qed
  then have "sorted (map (\<lambda>c. astype_uint8 ub (Fin (?f c))) cdf)"
    by (simp only: sorted_map)
  moreover have "scale_cdf ub cdf = map (\<lambda>c. astype_uint8 ub (Fin (?f c))) cdf"
    using True unfolding scale_cdf_def Let_def by (simp only: if_True)
  ultimately show ?thesis by (simp only:)
qed


lemma takeWhile_le_facts:
  assumes ne: "xp \<noteq> []" and h: "hd xp \<le> (x :: real)"
  shows "length (takeWhile (\<lambda>a. a \<le> x) xp) - 1 < length xp"
    and "xp ! (length (takeWhile (\<lambda>a. a \<le> x) xp) - 1) \<le> x"
    and "length (takeWhile (\<lambda>a. a \<le> x) xp) - 1 + 1 < length xp \<Longrightarrow>
         x < xp ! (length (takeWhile (\<lambda>a. a \<le> x) xp) - 1 + 1)"
proof -
  let ?T = "takeWhile (\<lambda>a. a \<le> x) xp"
  from ne h have pos: "0 < length ?T" by (cases xp) simp_all
  have le: "length ?T \<le> length xp" by (rule length_takeWhile_le)
  from pos le show "length ?T - 1 < length xp" by arith
  from pos have j: "length ?T - 1 < length ?T" by simp
  then have "?T ! (length ?T - 1) \<in> set ?T" by (rule nth_mem)
  then have "?T ! (length ?T - 1) \<le> x" by (auto dest: set_takeWhileD)
  with j show "xp ! (length ?T - 1) \<le> x" by (simp add: takeWhile_nth)
  assume "length ?T - 1 + 1 < length xp"
  with pos have lt: "length ?T < length xp" by simp
  from nth_length_takeWhile [OF lt] have "\<not> xp ! length ?T \<le> x" .
  with pos show "x < xp ! (length ?T - 1 + 1)" by simp
qed

lemma takeWhile_le_mono:
  "(x :: real) \<le> y \<Longrightarrow>
   length (takeWhile (\<lambda>a. a \<le> x) xp) \<le> length (takeWhile (\<lambda>a. a \<le> y) xp)"
  by (induction xp) auto

lemma segment_bounds:
  fixes a b x x0 x1 :: real
  assumes "a \<le> b" "x0 \<le> x" "x < x1"
  shows "a \<le> (b - a) / (x1 - x0) * (x - x0) + a"
    and "(b - a) / (x1 - x0) * (x - x0) + a \<le> b"
proof -
  have d: "0 < x1 - x0" using assms by simp
  have t: "0 \<le> (x - x0) / (x1 - x0)" "(x - x0) / (x1 - x0) \<le> 1"
    using assms d by simp_all
  have e: "(b - a) / (x1 - x0) * (x - x0) = (b - a) * ((x - x0) / (x1 - x0))" by simp
  have "0 \<le> (b - a) * ((x - x0) / (x1 - x0))"
    by (rule mult_nonneg_nonneg) (use assms(1) t(1) in simp_all)
  with e show "a \<le> (b - a) / (x1 - x0) * (x - x0) + a" by simp
  have "(b - a) * ((x - x0) / (x1 - x0)) \<le> (b - a) * 1"
    using assms(1) t(2) by (intro mult_left_mono) simp_all
  with e show "(b - a) / (x1 - x0) * (x - x0) + a \<le> b" by simp
qed

lemma segment_mono:
  fixes a b x y x0 x1 :: real
  assumes "a \<le> b" "x0 < x1" "x \<le> y"
  shows "(b - a) / (x1 - x0) * (x - x0) + a \<le> (b - a) / (x1 - x0) * (y - x0) + a"
proof -
  have "0 \<le> (b - a) / (x1 - x0)" using assms by simp
  then have "(b - a) / (x1 - x0) * (x - x0) \<le> (b - a) / (x1 - x0) * (y - x0)"
    using assms(3) by (intro mult_left_mono) simp_all
  then show ?thesis by simp
qed

lemma np_interp_bounds:
  assumes ne: "xp \<noteq> []" and len: "length fp = length xp" and so: "sorted fp"
  shows "hd fp \<le> np_interp x xp fp \<and> np_interp x xp fp \<le> last fp"
proof -
  from ne len have fne: "fp \<noteq> []" by auto
  have hl: "hd fp \<le> last fp"
    using so fne sorted_nth_mono [of fp 0 "length fp - 1"]
    by (simp add: hd_conv_nth last_conv_nth)
  have lo: "hd fp \<le> fp ! i" if "i < length fp" for i
    using so fne that sorted_nth_mono [of fp 0 i] by (simp add: hd_conv_nth)
  have hi: "fp ! i \<le> last fp" if "i < length fp" for i
    using so fne that sorted_nth_mono [of fp i "length fp - 1"] by (simp add: last_conv_nth)
  show ?thesis
  proof (cases "x > last xp \<or> x < hd xp")
    case True
    then show ?thesis using hl by (auto simp: np_interp_def)
  next
    case False
    then have h: "hd xp \<le> x" by simp
    let ?j = "length (takeWhile (\<lambda>a. a \<le> x) xp) - 1"
    note F = takeWhile_le_facts [OF ne h]
    show ?thesis
    proof (cases "?j = length xp - 1 \<or> xp ! ?j = x")
      case True
      with False have "np_interp x xp fp = fp ! ?j" by (auto simp: np_interp_def Let_def)
      with lo [of ?j] hi [of ?j] F(1) len show ?thesis by simp
    next
      case c: False
      with F(1) have j1: "?j + 1 < length xp" by arith
      from c False have v: "np_interp x xp fp =
          (fp ! (?j + 1) - fp ! ?j) / (xp ! (?j + 1) - xp ! ?j) * (x - xp ! ?j) + fp ! ?j"
        by (simp add: np_interp_def Let_def)
      have s: "fp ! ?j \<le> fp ! (?j + 1)"
        using so j1 len by (intro sorted_nth_mono) simp_all
      from segment_bounds [OF s F(2) F(3) [OF j1]] v
      have "fp ! ?j \<le> np_interp x xp fp" "np_interp x xp fp \<le> fp ! (?j + 1)" by simp_all
      with lo [of ?j] hi [of "?j + 1"] j1 len show ?thesis by simp
    qed
  qed
qed


lemma np_interp_mid:
  assumes ne: "xp \<noteq> []" and len: "length fp = length xp" and so: "sorted fp"
    and m: "\<not> x > last xp" "\<not> x < hd xp"
  shows "fp ! (length (takeWhile (\<lambda>a. a \<le> x) xp) - 1) \<le> np_interp x xp fp"
    and "length (takeWhile (\<lambda>a. a \<le> x) xp) - 1 + 1 < length xp \<Longrightarrow>
         np_interp x xp fp \<le> fp ! (length (takeWhile (\<lambda>a. a \<le> x) xp) - 1 + 1)"
proof -
  let ?j = "length (takeWhile (\<lambda>a. a \<le> x) xp) - 1"
  from m have h: "hd xp \<le> x" by simp
  note F = takeWhile_le_facts [OF ne h]
  have s: "fp ! ?j \<le> fp ! (?j + 1)" if "?j + 1 < length xp"
    using so that len by (intro sorted_nth_mono) simp_all
  have A: "fp ! ?j \<le> np_interp x xp fp \<and>
           (?j + 1 < length xp \<longrightarrow> np_interp x xp fp \<le> fp ! (?j + 1))"
  proof (cases "?j = length xp - 1 \<or> xp ! ?j = x")
    case True
    with m have "np_interp x xp fp = fp ! ?j" by (auto simp: np_interp_def Let_def)
    with s show ?thesis by simp
  next
    case c: False
    with F(1) have j1: "?j + 1 < length xp" by arith
    from c m have v: "np_interp x xp fp =
        (fp ! (?j + 1) - fp ! ?j) / (xp ! (?j + 1) - xp ! ?j) * (x - xp ! ?j) + fp ! ?j"
      by (simp add: np_interp_def Let_def)
    from segment_bounds [OF s [OF j1] F(2) F(3) [OF j1]] v show ?thesis by simp
  qed
  from A show "fp ! ?j \<le> np_interp x xp fp" by blast
  assume "?j + 1 < length xp"
  with A show "np_interp x xp fp \<le> fp ! (?j + 1)" by blast
qed

lemma np_interp_mono:
  assumes ne: "xp \<noteq> []" and len: "length fp = length xp" and so: "sorted fp"
    and xy: "x \<le> y"
  shows "np_interp x xp fp \<le> np_interp y xp fp"
proof -
  note B = np_interp_bounds [OF ne len so]
  let ?jx = "length (takeWhile (\<lambda>a. a \<le> x) xp) - 1"
  let ?jy = "length (takeWhile (\<lambda>a. a \<le> y) xp) - 1"
  consider (right) "y > last xp" | (left) "\<not> y > last xp" "y < hd xp"
    | (xleft) "\<not> y > last xp" "\<not> y < hd xp" "x < hd xp"
    | (mid) "\<not> y > last xp" "\<not> y < hd xp" "\<not> x < hd xp"
    by blast
  then show ?thesis
  proof cases
    case right
    then have "np_interp y xp fp = last fp" by (simp add: np_interp_def)
    with B [of x] show ?thesis by simp
  next
    case left
    with xy have "\<not> x > last xp" "x < hd xp" by simp_all
    with left show ?thesis by (simp add: np_interp_def)
  next
    case xleft
    with xy have "\<not> x > last xp" by simp
    with xleft have "np_interp x xp fp = hd fp" by (simp add: np_interp_def)
    with B [of y] show ?thesis by simp
  next
    case mid
    with xy have mx: "\<not> x > last xp" "\<not> x < hd xp" by simp_all
    have my: "\<not> y > last xp" "\<not> y < hd xp" using mid by simp_all
    from mx have hx: "hd xp \<le> x" by simp
    from my have hy: "hd xp \<le> y" by simp
    note Fx = takeWhile_le_facts [OF ne hx]
    note Fy = takeWhile_le_facts [OF ne hy]
    note Mx = np_interp_mid [OF ne len so mx]
    note My = np_interp_mid [OF ne len so my]
    have jj: "?jx \<le> ?jy" using takeWhile_le_mono [OF xy, of xp] by arith
    show ?thesis
    proof (cases "?jx = ?jy")
      case False
      with jj have lt: "?jx + 1 \<le> ?jy" by arith
      with Fy(1) have j1: "?jx + 1 < length xp" by arith
      have "fp ! (?jx + 1) \<le> fp ! ?jy"
        using so lt Fy(1) len by (intro sorted_nth_mono) simp_all
      with Mx(2) [OF j1] My(1) show ?thesis by linarith
    next
      case eq: True
      show ?thesis
      proof (cases "?jx = length xp - 1")
        case True
        with eq mx my show ?thesis by (simp add: np_interp_def Let_def)
      next
        case nl: False
        with Fx(1) have j1: "?jx + 1 < length xp" by arith
        show ?thesis
        proof (cases "xp ! ?jx = x")
          case True
          with mx nl have "np_interp x xp fp = fp ! ?jx" by (simp add: np_interp_def Let_def)
          with My(1) eq show ?thesis by simp
        next
          case nx: False
          with Fx(2) xy have ny: "xp ! ?jx \<noteq> y" by simp
          from nx nl mx have vx: "np_interp x xp fp =
              (fp ! (?jx + 1) - fp ! ?jx) / (xp ! (?jx + 1) - xp ! ?jx) * (x - xp ! ?jx) + fp ! ?jx"
            by (simp add: np_interp_def Let_def)
          from ny nl my eq have vy: "np_interp y xp fp =
              (fp ! (?jx + 1) - fp ! ?jx) / (xp ! (?jx + 1) - xp ! ?jx) * (y - xp ! ?jx) + fp ! ?jx"
            by (simp add: np_interp_def Let_def)
          have s: "fp ! ?jx \<le> fp ! (?jx + 1)"
            using so j1 len by (intro sorted_nth_mono) simp_all
          have d: "xp ! ?jx < xp ! (?jx + 1)" using Fx(2) Fx(3) [OF j1] by simp
          from segment_mono [OF s d xy] vx vy show ?thesis by simp
        qed
      qed
    qed
  qed
qed


lemma length_cumsum_from: "length (cumsum_from acc hs) = length hs"
  by (induction hs arbitrary: acc) simp_all

lemma length_scale_cdf: "length (scale_cdf ub cdf) = length cdf"
  by (simp add: scale_cdf_def Let_def)

lemma length_bins_center: "length (bins_center bins) = length bins - 1"
  by (simp add: bins_center_def)

lemma np_histogram_shape:
  assumes "np_histogram a n rng = Inr (hist, bins)"
  shows "length hist = n" and "length bins = n + 1" and "\<forall>h\<in>set hist. 0 \<le> h"
  using assms
  by (auto simp: np_histogram_def np_linspace_def Let_def split: sum.splits prod.splits if_splits)

lemma uint8_as_real_sorted:
  assumes "sorted (ws :: uint8 list)"
  shows "sorted (map (\<lambda>w. real (unat w)) ws)"
proof -
  have "sorted_wrt (\<lambda>a c. real (unat a) \<le> real (unat c)) ws"
    using assms
  proof (rule sorted_wrt_mono_rel [rotated])
    fix a c :: uint8 assume "a \<le> c"
    then have "unat a \<le> unat c" by (simp only: word_le_nat_alt)
    then show "real (unat a) \<le> real (unat c)" by (rule of_nat_mono)
  qed
  then show ?thesis by (simp only: sorted_map)
qed

lemma uint8_as_real_range:
  assumes "ws \<noteq> []"
  shows "0 \<le> hd (map (\<lambda>w. real (unat w)) (ws :: uint8 list))"
    and "last (map (\<lambda>w. real (unat w)) ws) \<le> 255"
proof -
  from assms obtain w ws' where c: "ws = w # ws'" by (cases ws) auto
  show "0 \<le> hd (map (\<lambda>w. real (unat w)) ws)"
    unfolding c list.map list.sel by (rule of_nat_0_le_iff)
  have "unat (last ws) < 2 ^ LENGTH(8)" by (rule unsigned_less)
  then have "unat (last ws) \<le> 255" by simp
  then have "real (unat (last ws)) \<le> real 255" by (rule of_nat_mono)
  then have "real (unat (last ws)) \<le> 255" by (simp only: of_nat_numeral)
  moreover have "last (map (\<lambda>w. real (unat w)) ws) = real (unat (last ws))"
    using assms by (rule last_map)
  ultimately show "last (map (\<lambda>w. real (unat w)) ws) \<le> 255"
    by (simp only:)
qed

text \<open>
  C5. In the output of equalization, a valid sample that is smaller than another one
  never gets the greater output value.
\<close>

theorem equalization_monotone:
  assumes eq: "equalization ub valid_data = Inr out"
    and i: "i < length valid_data" and j: "j < length valid_data"
    and lt: "valid_data ! i < valid_data ! j"
  shows "out ! i \<le> out ! j"
proof -
  from eq obtain hist bins where
    H: "np_histogram valid_data 256 (amin valid_data, amax valid_data) = Inr (hist, bins)"
    by (auto simp: equalization_def split: sum.splits)
  let ?cdf = "scale_cdf ub (cumsum hist)"
  let ?fp = "map (\<lambda>w. real (unat w)) ?cdf"
  let ?xp = "bins_center bins"
  from eq H have out: "out = map (\<lambda>x. astype_uint8 ub (Fin (np_interp x ?xp ?fp))) valid_data"
    by (simp add: equalization_def Let_def)
  note S = np_histogram_shape [OF H]
  have lc: "length ?cdf = 256"
    using S(1) by (simp add: length_scale_cdf cumsum_def length_cumsum_from)
  then have cne: "?cdf \<noteq> []" by auto
  have lx: "length ?xp = 256" using S(2) by (simp add: length_bins_center)
  then have ne: "?xp \<noteq> []" by auto
  have len: "length ?fp = length ?xp" using lc lx by simp
  have "sorted (cumsum hist)"
    using cumsum_from_sorted [OF S(3), of 0] by (simp add: cumsum_def)
  then have so: "sorted ?fp"
    by (intro uint8_as_real_sorted scale_cdf_sorted)
  note R = uint8_as_real_range [OF cne]
  have rng: "0 \<le> np_interp x ?xp ?fp \<and> np_interp x ?xp ?fp < 256" for x
    using np_interp_bounds [OF ne len so, of x] R by linarith
  have mono: "np_interp (valid_data ! i) ?xp ?fp \<le> np_interp (valid_data ! j) ?xp ?fp"
    using lt by (intro np_interp_mono [OF ne len so]) simp
  have "astype_uint8 ub (Fin (np_interp (valid_data ! i) ?xp ?fp)) \<le>
        astype_uint8 ub (Fin (np_interp (valid_data ! j) ?xp ?fp))"
    using rng [of "valid_data ! i"] rng [of "valid_data ! j"] mono
    by (intro astype_uint8_mono) simp_all
  with i j show ?thesis by (simp add: out del: astype_uint8.simps)
qed

section \<open>Equalization on lists given by index\<close>

lemma cumsum_from_append:
  "cumsum_from acc (xs @ ys) = cumsum_from acc xs @ cumsum_from (acc + sum_list xs) ys"
  by (induction xs arbitrary: acc) (simp_all add: add.assoc)

lemma cumsum_from_upt:
  "cumsum_from acc (map f [0..<n]) = map (\<lambda>i. acc + sum f {0..i}) [0..<n]"
proof (induction n)
  case 0
  then show ?case by simp
next
  case (Suc n)
  have "sum_list (map f [0..<n]) = sum f {0..<n}"
    by (simp add: interv_sum_list_conv_sum_set_nat)
  moreover have "sum f {0..n} = sum f {0..<n} + f n"
    by (simp add: atLeastLessThanSuc_atLeastAtMost [symmetric])
  ultimately show ?case
    using Suc by (simp add: cumsum_from_append)
qed

lemma takeWhile_upt:
  assumes "k \<le> n" and "\<forall>i<k. P i" and "k < n \<longrightarrow> \<not> P k"
  shows "takeWhile P [0..<n] = [0..<k]"
proof -
  from assms(1) have s: "[0..<n] = [0..<k] @ [k..<n]"
    by (metis le_iff_add upt_add_eq_append zero_le)
  have "takeWhile P [k..<n] = []"
    using assms(3) by (cases "k < n") (simp_all add: upt_rec [of k n])
  moreover have "takeWhile P ([0..<k] @ [k..<n]) = [0..<k] @ takeWhile P [k..<n]"
    by (rule takeWhile_append2) (use assms(2) in simp)
  ultimately show ?thesis unfolding s by simp
qed

lemma bins_center_upt:
  "bins_center (map e [0..<Suc n]) = map (\<lambda>i. (e i + e (Suc i)) / 2) [0..<n]"
proof -
  have b: "butlast (map e [0..<Suc n]) = map e [0..<n]" by (simp add: butlast_append)
  have t: "tl (map e [0..<Suc n]) = map (\<lambda>i. e (Suc i)) [0..<n]"
    by (simp add: upt_rec [of 0 "Suc n"] map_Suc_upt [symmetric] del: upt_Suc)
  show ?thesis
    unfolding bins_center_def b t by (simp add: zip_map_map zip_same_conv_map)
qed

lemma count_list_const:
  "count_list (map (\<lambda>x. k) xs) i = (if i = k then length xs else 0)"
  by (induction xs) auto

lemma increasing_edges_upt:
  "increasing_edges (map e [0..<Suc n]) = (\<forall>i<n. e i < e (Suc i))"
proof -
  have b: "butlast (map e [0..<Suc n]) = map e [0..<n]" by (simp add: butlast_append)
  have t: "tl (map e [0..<Suc n]) = map (\<lambda>i. e (Suc i)) [0..<n]"
    by (simp add: upt_rec [of 0 "Suc n"] map_Suc_upt [symmetric] del: upt_Suc)
  show ?thesis
    unfolding increasing_edges_def b t
    by (auto simp add: zip_map_map zip_same_conv_map list_all_iff)
qed

lemma np_linspace_exact:
  assumes st: "binary64 (binary64 (stop - start) / real n) = h"
    and ed: "\<And>i. i < n \<Longrightarrow> binary64 (binary64 (real i * h) + start) = start + real i * h"
    and la: "start + real n * h = stop"
  shows "np_linspace start stop n = map (\<lambda>i. start + real i * h) [0..<Suc n]"
proof -
  have "map (\<lambda>i. binary64 (binary64 (real i * h) + start)) [0..<n] =
        map (\<lambda>i. start + real i * h) [0..<n]"
    by (intro map_cong refl) (simp add: ed)
  then show ?thesis
    unfolding np_linspace_def Let_def st by (simp add: la)
qed

lemma binary64_nat_div_pow2:
  assumes "i < 2 ^ 53"
  shows "binary64 (real i / 2 ^ n) = real i / 2 ^ n"
proof -
  have "int i < 2 ^ 53" using assms by (simp add: of_nat_less_iff [of i "2 ^ 53", where ?'a = int, simplified])
  then have "binary64 (of_int (int i) / 2 ^ n) = of_int (int i) / 2 ^ n"
    by (intro binary64_div_pow2) simp_all
  then show ?thesis by simp
qed


section \<open>Equalization of a constant band\<close>

lemma constant_list:
  assumes "xs \<noteq> []" and "\<forall>x\<in>set xs. x = c"
  shows "set xs = {c}"
  using assms by (cases xs) auto

lemma hist_constant:
  assumes ne: "valid \<noteq> []" and co: "\<forall>x\<in>set valid. x = c"
    and ex: "\<And>i. i \<le> 256 \<Longrightarrow>
               binary64 (c - 1 / 2 + real i * (1 / 256)) = c - 1 / 2 + real i * (1 / 256)"
  shows "np_histogram valid 256 (c, c) =
     Inr (map (\<lambda>i. if i = 128 then int (length valid) else 0) [0..<256],
          map (\<lambda>i. c - 1 / 2 + real i * (1 / 256)) [0..<257])"
proof -
  let ?e = "\<lambda>i::nat. c - 1 / 2 + real i * (1 / 256)"
  have e0: "binary64 (c - 1 / 2) = c - 1 / 2" using ex [of 0] by simp
  have h: "c - 1 / 2 + real (256 :: nat) * (1 / 256) = c + 1 / 2" by simp
  have e1: "binary64 (c + 1 / 2) = c + 1 / 2" using ex [of 256] unfolding h by simp
  have oe: "outer_edges (c, c) = Inr (c - 1 / 2, c + 1 / 2)"
    by (simp add: outer_edges_def e0 e1)
  have s1: "binary64 (1 / 256) = 1 / 256" using binary64_div_pow2 [of 1 8] by simp
  have st: "binary64 (binary64 (c + 1 / 2 - (c - 1 / 2)) / real 256) = 1 / 256"
    by (simp add: binary64_1 s1)
  have ri: "binary64 (real i * (1 / 256)) = real i * (1 / 256)" if "i < 256" for i
  proof -
    from that have "i < 2 ^ 53" by simp
    from binary64_nat_div_pow2 [OF this, of 8] show ?thesis by simp
  qed
  have ed: "binary64 (binary64 (real i * (1 / 256)) + (c - 1 / 2)) = c - 1 / 2 + real i * (1 / 256)"
    if "i < 256" for i
  proof -
    have "binary64 (real i * (1 / 256) + (c - 1 / 2)) = binary64 (c - 1 / 2 + real i * (1 / 256))"
      by (simp add: add.commute)
    also have "\<dots> = c - 1 / 2 + real i * (1 / 256)" using that by (intro ex) simp
    finally show ?thesis by (simp only: ri [OF that])
  qed
  have "np_linspace (c - 1 / 2) (c + 1 / 2) 256 = map ?e [0..<Suc 256]"
    using st ed h by (rule np_linspace_exact)
  then have L: "np_linspace (c - 1 / 2) (c + 1 / 2) 256 = map ?e [0..<257]" by simp
  have "increasing_edges (map ?e [0..<Suc 256])"
    unfolding increasing_edges_upt by simp
  then have inc: "increasing_edges (map ?e [0..<257])" by simp
  have k: "filter (\<lambda>x. c - 1 / 2 \<le> x \<and> x \<le> c + 1 / 2) valid = valid"
    using co by (intro filter_True) simp
  have f: "binary64 (binary64 (binary64 (c - (c - 1 / 2)) / binary64 (c + 1 / 2 - (c - 1 / 2))) *
             real 256) = 128"
    by (simp add: binary64_1 binary64_half binary64_numeral)
  have n1: "map ?e [0..<257] ! 128 = c" and n2: "map ?e [0..<257] ! (128 + 1) = c + 1 / 256"
    by (simp_all del: upt_Suc)
  have b: "bin_index (c - 1 / 2) (c + 1 / 2) 256 (map ?e [0..<257]) c = 128"
    unfolding bin_index_def Let_def f using n1 n2 by simp
  have i: "map (bin_index (c - 1 / 2) (c + 1 / 2) 256 (map ?e [0..<257])) valid =
           map (\<lambda>x. 128) valid"
    using co b by (intro map_cong) simp_all
  show ?thesis
    unfolding np_histogram_def oe sum.case prod.case Let_def L k i count_list_const
    using inc by (simp del: upt_Suc)
qed

lemma cdf_step:
  "cumsum (map (\<lambda>i. if i = k then v else 0) [0..<n]) =
   map (\<lambda>i. if k \<le> i then v else 0) [0..<n]"
proof -
  have "sum (\<lambda>j. if j = k then v else 0) {0..i} = (if k \<le> i then v else 0)" for i
    by (simp add: sum.delta)
  then show ?thesis by (simp add: cumsum_def cumsum_from_upt)
qed

lemma scale_cdf_step:
  assumes v: "lo < hi" and k: "0 < k" "k < n"
  shows "scale_cdf ub (map (\<lambda>i. if k \<le> i then hi else lo) [0..<n]) =
         map (\<lambda>i. if k \<le> i then 255 else 0) [0..<n]"
proof -
  let ?g = "\<lambda>i::nat. if k \<le> i then hi else lo"
  let ?S = "set (map ?g [0..<n])"
  have fin: "finite ?S" by simp
  have "?g 0 \<in> ?g ` {0..<n}" using k by (intro imageI) simp
  then have z: "lo \<in> ?S" using k by simp
  have "?g k \<in> ?g ` {0..<n}" using k by (intro imageI) simp
  then have t: "hi \<in> ?S" by simp
  have mn: "Min ?S = lo" using z v by (intro Min_eqI fin) auto
  have mx: "Max ?S = hi" using t v by (intro Max_eqI fin) auto
  have "real_of_int ((hi - lo) * 255) = real_of_int (hi - lo) * 255" by simp
  moreover have "real_of_int (hi - lo) \<noteq> 0" using v by simp
  moreover have "d \<noteq> 0 \<Longrightarrow> d * 255 / d = 255" for d :: real by simp
  ultimately have q: "real_of_int ((hi - lo) * 255) / real_of_int (hi - lo) = 255"
    by (simp only:)
  have a: "astype_uint8 ub (Fin (real_of_int ((?g i - lo) * 255) / real_of_int (hi - lo))) =
           (if k \<le> i then 255 else 0)" for i
  proof (cases "k \<le> i")
    case True
    have "astype_uint8 ub (Fin (real_of_int ((hi - lo) * 255) / real_of_int (hi - lo))) = 255"
      unfolding q by (simp add: c_trunc_def)
    with True show ?thesis by (simp only: if_True)
  next
    case False
    have "astype_uint8 ub (Fin (real_of_int ((lo - lo) * 255) / real_of_int (hi - lo))) = 0"
      by (simp add: c_trunc_def)
    with False show ?thesis by (simp only: if_False)
  qed
  have "scale_cdf ub (map ?g [0..<n]) =
      map (\<lambda>c. astype_uint8 ub (Fin (real_of_int ((c - lo) * 255) / real_of_int (hi - lo))))
        (map ?g [0..<n])"
    unfolding scale_cdf_def Let_def mn mx using v by (simp only: if_True)
  also have "\<dots> = map (\<lambda>i. if k \<le> i then 255 else 0) [0..<n]"
    unfolding map_map comp_def a ..
  finally show ?thesis .
qed

lemma interp_constant:
  fixes c :: real
  defines "g \<equiv> \<lambda>i::nat. c - 1 / 2 + (2 * real i + 1) / 512"
  shows "np_interp c (map g [0..<256])
           (map (\<lambda>w. real (unat w)) (map (\<lambda>i. if 128 \<le> i then 255 else 0 :: uint8) [0..<256])) =
         255 / 2"
proof -
  let ?xp = "map g [0..<256]"
  let ?fp = "map (\<lambda>w. real (unat w)) (map (\<lambda>i. if 128 \<le> i then 255 else 0 :: uint8) [0..<256])"
  have la: "last ?xp = g 255" by (simp add: last_map)
  have hd: "hd ?xp = g 0" by (simp add: hd_map upt_rec [of 0 256])
  have r: "\<not> c > last ?xp" unfolding la by (simp add: g_def)
  have l: "\<not> c < hd ?xp" unfolding hd by (simp add: g_def)
  have p: "\<forall>i<128. g i \<le> c"
  proof (intro allI impI)
    fix i :: nat assume "i < 128"
    then have "real i \<le> 127" by simp
    then show "g i \<le> c" by (simp add: g_def)
  qed
  have q: "\<not> g 128 \<le> c" by (simp add: g_def)
  have "takeWhile ((\<lambda>a. a \<le> c) \<circ> g) [0..<256] = [0..<128]"
    by (rule takeWhile_upt) (use p q in simp_all)
  then have tw: "length (takeWhile (\<lambda>a. a \<le> c) ?xp) - 1 = 127"
    by (simp add: takeWhile_map)
  have x127: "?xp ! 127 = g 127" and x128: "?xp ! (127 + 1) = g 128"
    by (simp_all del: upt_Suc)
  have f127: "?fp ! 127 = 0" and f128: "?fp ! (127 + 1) = 255"
    by (simp_all del: upt_Suc)
  have n: "g 127 \<noteq> c" by (simp add: g_def)
  have lx: "length ?xp - 1 = 255" by simp
  have "np_interp c ?xp ?fp = (?fp ! (127 + 1) - ?fp ! 127) / (?xp ! (127 + 1) - ?xp ! 127) *
      (c - ?xp ! 127) + ?fp ! 127"
    using r l n unfolding np_interp_def Let_def tw lx x127 by (simp only: if_False) simp
  also have "\<dots> = 255 / 2"
    unfolding x127 x128 f127 f128 by (simp add: g_def)
  finally show ?thesis .
qed


lemma equalization_constant:
  assumes ne: "valid \<noteq> []" and co: "\<forall>x\<in>set valid. x = c"
    and ex: "\<And>i. i \<le> 256 \<Longrightarrow>
               binary64 (c - 1 / 2 + real i * (1 / 256)) = c - 1 / 2 + real i * (1 / 256)"
  shows "equalization ub valid = Inr (map (\<lambda>x. 127) valid)"
proof -
  let ?e = "\<lambda>i::nat. c - 1 / 2 + real i * (1 / 256)"
  let ?g = "\<lambda>i::nat. c - 1 / 2 + (2 * real i + 1) / 512"
  let ?cdf8 = "map (\<lambda>i. if 128 \<le> i then 255 else 0 :: uint8) [0..<256]"
  from constant_list [OF ne co] have m: "amin valid = c" "amax valid = c"
    by (simp_all add: amin_def amax_def)
  have n: "0 < int (length valid)" using ne by simp
  have cs: "scale_cdf ub (cumsum (map (\<lambda>i. if i = 128 then int (length valid) else 0) [0..<256])) =
      ?cdf8"
    unfolding cdf_step by (rule scale_cdf_step) (use n in simp_all)
  have "257 = Suc 256" by simp
  then have "bins_center (map ?e [0..<257]) = map (\<lambda>i. (?e i + ?e (Suc i)) / 2) [0..<256]"
    by (simp only: bins_center_upt)
  also have "\<dots> = map ?g [0..<256]"
    by (intro map_cong refl) (simp add: field_simps)
  finally have bc: "bins_center (map ?e [0..<257]) = map ?g [0..<256]" .
  have v: "astype_uint8 ub (Fin (np_interp x (map ?g [0..<256]) (map (\<lambda>w. real (unat w)) ?cdf8))) =
      127" if "x \<in> set valid" for x
  proof -
    from co that have x: "x = c" by simp
    have "astype_uint8 ub (Fin (np_interp c (map ?g [0..<256]) (map (\<lambda>w. real (unat w)) ?cdf8))) =
        astype_uint8 ub (Fin (255 / 2))"
      by (simp only: interp_constant)
    also have "\<dots> = 127" by (simp add: c_trunc_def)
    finally show ?thesis unfolding x .
  qed
  have H: "np_histogram valid 256 (c, c) =
     Inr (map (\<lambda>i. if i = 128 then int (length valid) else 0) [0..<256], map ?e [0..<257])"
    using ne co ex by (rule hist_constant)
  have "equalization ub valid =
      Inr (map (\<lambda>x. astype_uint8 ub
             (Fin (np_interp x (map ?g [0..<256]) (map (\<lambda>w. real (unat w)) ?cdf8)))) valid)"
    unfolding equalization_def m H
    by (simp only: sum.case prod.case Let_def cs bc)
  also have "\<dots> = Inr (map (\<lambda>x. 127) valid)"
    using v by (simp del: astype_uint8.simps upt_Suc)
  finally show ?thesis .
qed

lemma np_percentile_constant:
  assumes ne: "valid \<noteq> []" and co: "\<forall>x\<in>set valid. x = c" and fc: "binary64 c = c"
    and q: "0 \<le> q" "q \<le> 100"
  shows "np_percentile valid q = Inr c"
proof -
  let ?n = "length valid"
  let ?vi = "binary64 (real (?n - 1) * binary64 (q / 100))"
  have el: "sort valid ! i = c" if "i < ?n" for i
  proof -
    from that have "sort valid ! i \<in> set (sort valid)" by (intro nth_mem) simp
    with co show ?thesis by simp
  qed
  have pos: "0 < ?n" using ne by simp
  have q0: "0 \<le> binary64 (q / 100)" using q by (intro binary64_nonneg) simp
  have "binary64 (q / 100) \<le> binary64 1" using q by (intro binary64_mono) simp_all
  then have q1: "binary64 (q / 100) \<le> 1" by (simp only: binary64_1)
  have v0: "0 \<le> ?vi" using q0 by (intro binary64_nonneg) simp
  have d: "binary64 (c - c) = 0" by (simp add: binary64_0)
  show ?thesis
  proof (cases "real (?n - 1) \<le> ?vi")
    case True
    have "sort valid ! (?n - 1) = c" using pos by (intro el) simp
    with True q0 q1 fc show ?thesis
      unfolding np_percentile_def Let_def by (simp add: binary64_0)
  next
    case False
    then have "real_of_int \<lfloor>?vi\<rfloor> < real (?n - 1)" by linarith
    then have "\<lfloor>?vi\<rfloor> < int (?n - 1)" by linarith
    moreover have "0 \<le> \<lfloor>?vi\<rfloor>" using v0 by simp
    ultimately have lo: "nat \<lfloor>?vi\<rfloor> < ?n" and hi: "nat \<lfloor>?vi\<rfloor> + 1 < ?n" by linarith+
    from el [OF lo] el [OF hi] False q0 q1 fc show ?thesis
      unfolding np_percentile_def Let_def by (simp add: binary64_0)
  qed
qed

lemma linear_stretch_constant:
  assumes ne: "valid \<noteq> []" and co: "\<forall>x\<in>set valid. x = c" and fc: "binary64 c = c"
    and cp: "0 \<le> cp" "cp \<le> 100"
  shows "linear_stretch ub cp valid = Inr (map (\<lambda>x. ub NaN) valid)"
proof -
  have a: "np_percentile valid cp = Inr c"
    using ne co fc cp by (rule np_percentile_constant)
  have b: "np_percentile valid (binary64 (100 - cp)) = Inr c"
    using ne co fc complement_percentage [OF cp] by (rule np_percentile_constant)
  show ?thesis
    by (simp add: linear_stretch_def a b np_divide_def np_clip_def rounded_def binary64_0)
qed

lemma gamma_correction_constant:
  assumes ne: "valid \<noteq> []" and co: "\<forall>x\<in>set valid. x = c" and g: "0 < g"
  shows "gamma_correction ub g valid = Inr (map (\<lambda>x. 0) valid)"
proof -
  from constant_list [OF ne co] have m: "amin valid = c" "amax valid = c"
    by (simp_all add: amin_def amax_def)
  show ?thesis
    using g by (simp add: gamma_correction_def m py_truediv_def np_power_def c_trunc_def)
qed

text \<open>
  C1, at a band of two valid pixels with the same value 5. Linear stretch divides 0 by 0
  and writes the cast of NaN to uint8, which the language leaves undefined; equalization
  writes 127; gamma correction (gamma above zero) writes 0.
\<close>

theorem constant_band_outputs:
  "process_band ub 0 2 1 \<lparr>band_data = [5, 5], band_nodata = None\<rparr> = Written [ub NaN, ub NaN] \<and>
   process_band ub 1 2 1 \<lparr>band_data = [5, 5], band_nodata = None\<rparr> = Written [127, 127] \<and>
   process_band ub 2 2 1 \<lparr>band_data = [5, 5], band_nodata = None\<rparr> = Written [0, 0]"
proof -
  have ne: "[5, 5 :: real] \<noteq> []" and co: "\<forall>x\<in>set [5, 5 :: real]. x = 5" by simp_all
  have fc: "binary64 (5 :: real) = 5" by (simp add: binary64_numeral)
  have ex: "binary64 (5 - 1 / 2 + real i * (1 / 256)) = 5 - 1 / 2 + real i * (1 / 256)"
    if "i \<le> 256" for i
  proof -
    have e: "5 - 1 / 2 + real i * (1 / 256) = of_int (1152 + int i) / 2 ^ 8" by simp
    show ?thesis unfolding e by (rule binary64_div_pow2) (use that in simp_all)
  qed
  have l: "linear_stretch ub 2 [5, 5] = Inr [ub NaN, ub NaN]"
    using linear_stretch_constant [OF ne co fc, of 2 ub] by simp
  have e: "equalization ub [5, 5] = Inr [127, 127]"
    using equalization_constant [OF ne co ex, of ub] by simp
  have g: "gamma_correction ub 1 [5, 5] = Inr [0, 0]"
    using gamma_correction_constant [OF ne co, of 1 ub] by simp
  show ?thesis
    by (simp add: process_band_def band_mask_def enhance_def l e g)
qed


section \<open>Equalization of a band with the values 0 and 100\<close>

lemma equalization_0_100: "equalization ub [0, 100] = Inr [0, 255]"
proof -
  let ?e = "\<lambda>i::nat. real i * (25 / 64)"
  let ?g = "\<lambda>i::nat. (?e i + ?e (Suc i)) / 2"
  let ?f = "\<lambda>j::nat. (if j = 0 then 1 else 0) + (if j = 255 then 1 else 0 :: int)"
  let ?cdf8 = "map (\<lambda>i. if 255 \<le> i then 255 else 0 :: uint8) [0..<256]"
  let ?fp = "map (\<lambda>w. real (unat w)) ?cdf8"
  have m: "amin [0, 100] = 0" "amax [0, 100] = 100" by (simp_all add: amin_def amax_def)
  have oe: "outer_edges (0, 100) = Inr (0, 100)" by (simp add: outer_edges_def)
  have st: "binary64 (binary64 (100 - 0) / real 256) = 25 / 64"
    using binary64_div_pow2 [of 25 6] by (simp add: binary64_100)
  have ed: "binary64 (binary64 (real i * (25 / 64)) + 0) = 0 + real i * (25 / 64)"
    if "i < 256" for i
  proof -
    have e: "real i * (25 / 64) = of_int (25 * int i) / 2 ^ 6" by simp
    have r: "binary64 (real i * (25 / 64)) = real i * (25 / 64)"
      unfolding e by (rule binary64_div_pow2) (use that in simp_all)
    show ?thesis by (simp only: r add_0_left add_0_right)
  qed
  have la: "0 + real (256 :: nat) * (25 / 64) = 100" by simp
  have "np_linspace 0 100 256 = map (\<lambda>i. 0 + real i * (25 / 64)) [0..<Suc 256]"
    using st ed la by (rule np_linspace_exact)
  then have L: "np_linspace 0 100 256 = map ?e [0..<257]" by simp
  have "increasing_edges (map ?e [0..<Suc 256])"
    unfolding increasing_edges_upt by simp
  then have inc: "increasing_edges (map ?e [0..<257])" by simp
  have n0: "map ?e [0..<257] ! 0 = 0" and n1: "map ?e [0..<257] ! (0 + 1) = 25 / 64"
    and n255: "map ?e [0..<257] ! 255 = 255 * (25 / 64)"
    by (simp_all del: upt_Suc)
  have fa: "binary64 (binary64 (binary64 (0 - 0) / binary64 (100 - 0)) * real 256) = 0"
    by (simp add: binary64_0)
  have fb: "binary64 (binary64 (binary64 (100 - 0) / binary64 (100 - 0)) * real 256) = 256"
    using binary64_of_int [of 256] by (simp add: binary64_100 binary64_1)
  have ia: "bin_index 0 100 256 (map ?e [0..<257]) 0 = 0"
    unfolding bin_index_def Let_def fa using n0 n1 by simp
  have ib: "bin_index 0 100 256 (map ?e [0..<257]) 100 = 255"
    unfolding bin_index_def Let_def fb using n255 by simp
  have k: "filter (\<lambda>x. 0 \<le> x \<and> x \<le> 100) [0, 100 :: real] = [0, 100]" by simp
  have H: "np_histogram [0, 100] 256 (0, 100) = Inr (map ?f [0..<256], map ?e [0..<257])"
    unfolding np_histogram_def oe sum.case prod.case Let_def L k list.map ia ib
    using inc by (simp del: upt_Suc)
  have "sum ?f {0..i} = (if 255 \<le> i then 2 else 1)" for i
    by (simp add: sum.distrib sum.delta)
  then have C: "cumsum (map ?f [0..<256]) = map (\<lambda>i. if 255 \<le> i then 2 else 1) [0..<256]"
    by (simp add: cumsum_def cumsum_from_upt)
  have cs: "scale_cdf ub (cumsum (map ?f [0..<256])) = ?cdf8"
    unfolding C by (rule scale_cdf_step) simp_all
  have "257 = Suc 256" by simp
  then have bc: "bins_center (map ?e [0..<257]) = map ?g [0..<256]"
    by (simp only: bins_center_upt)
  have la: "last (map ?g [0..<256]) = ?g 255" by (simp add: last_map)
  have hd: "hd (map ?g [0..<256]) = ?g 0" by (simp add: hd_map upt_rec [of 0 256])
  have fl: "last ?fp = 255" by (simp add: last_map)
  have fh: "hd ?fp = 0" by (simp add: hd_map upt_rec [of 0 256])
  have ga: "0 < ?g 0" by simp
  have gb: "?g 255 < 100" by simp
  have na: "\<not> 0 > ?g 255" by simp
  have va: "np_interp 0 (map ?g [0..<256]) ?fp = 0"
    unfolding np_interp_def la hd fl fh by (simp only: na ga if_True if_False)
  have vb: "np_interp 100 (map ?g [0..<256]) ?fp = 255"
    unfolding np_interp_def la hd fl fh by (simp only: gb if_True)
  have "equalization ub [0, 100] =
      Inr (map (\<lambda>x. astype_uint8 ub (Fin (np_interp x (map ?g [0..<256]) ?fp))) [0, 100])"
    unfolding equalization_def m H by (simp only: sum.case prod.case Let_def cs bc)
  also have "\<dots> = Inr [0, 255]"
    unfolding list.map va vb by (simp add: c_trunc_def)
  finally show ?thesis .
qed

theorem equalization_monotone_witness:
  "equalization ub_zero [0, 100] = Inr [0, 255] \<and> (0 :: nat) < length [0, 100 :: real] \<and>
   1 < length [0, 100 :: real] \<and> [0, 100 :: real] ! 0 < [0, 100] ! 1 \<and>
   [0, 255 :: uint8] ! 0 \<le> [0, 255] ! 1"
proof -
  have e: "equalization ub_zero [0, 100] = Inr [0, 255]"
    by (rule equalization_0_100)
  have i: "0 < length [0, 100 :: real]" and j: "1 < length [0, 100 :: real]" by simp_all
  have lt: "[0, 100 :: real] ! 0 < [0, 100] ! 1" by simp
  from equalization_monotone [OF e i j lt] e i j lt show ?thesis by blast
qed

section \<open>Equalization of a range too narrow for 256 bins\<close>

lemma not_increasing_edges:
  assumes "Suc i < length bin_edges" and "\<not> bin_edges ! i < bin_edges ! Suc i"
  shows "\<not> increasing_edges bin_edges"
proof
  assume "increasing_edges bin_edges"
  then have a: "\<forall>n<length (zip (butlast bin_edges) (tl bin_edges)).
      (case zip (butlast bin_edges) (tl bin_edges) ! n of (a, b) \<Rightarrow> a < b)"
    by (simp only: increasing_edges_def list_all_length)
  have l: "i < length (zip (butlast bin_edges) (tl bin_edges))" using assms(1) by simp
  have "zip (butlast bin_edges) (tl bin_edges) ! i = (bin_edges ! i, bin_edges ! Suc i)"
    using assms(1) by (simp add: nth_butlast nth_tl)
  with a l have "bin_edges ! i < bin_edges ! Suc i" by fastforce
  with assms(2) show False by blast
qed

text \<open>
  The first two edges for the range from \<^verbatim>\<open>2^45\<close> to \<^verbatim>\<open>2^45 + 1\<close> are equal: the
  step is \<open>1 / 256\<close>, and \<^verbatim>\<open>2^45 + 1/256\<close> lies half way between two binary64 numbers
  and is rounded to the even one, \<^verbatim>\<open>2^45\<close>.
\<close>

lemma linspace_narrow: "\<not> increasing_edges (np_linspace (2 ^ 45) (2 ^ 45 + 1) 256)"
proof -
  let ?E = "np_linspace (2 ^ 45) (2 ^ 45 + 1) 256"
  have s1: "binary64 (1 / 256) = 1 / 256" using binary64_div_pow2 [of 1 8] by simp
  have st: "binary64 (binary64 (2 ^ 45 + 1 - 2 ^ 45) / real 256) = 1 / 256"
    by (simp add: binary64_1 s1)
  have p: "binary64 (2 ^ 45) = 2 ^ 45"
    by (rule binary64_near [where k = "2 ^ 52" and n = 7]) simp_all
  have t: "binary64 (1 / 256 + 2 ^ 45) = 2 ^ 45"
    by (rule binary64_tie [where k = "2 ^ 52" and n = 7]) simp_all
  have r1: "real (Suc 0) * (1 / 256) = 1 / 256" by simp
  have e0: "?E ! 0 = 2 ^ 45"
    unfolding np_linspace_def Let_def st
    using p by (simp add: nth_append binary64_0 del: upt_Suc)
  have "?E ! Suc 0 = binary64 (binary64 (real (Suc 0) * (1 / 256)) + 2 ^ 45)"
    unfolding np_linspace_def Let_def st by (simp add: nth_append del: upt_Suc)
  also have "\<dots> = 2 ^ 45" unfolding r1 s1 t ..
  finally have e1: "?E ! Suc 0 = 2 ^ 45" .
  have l: "Suc 0 < length ?E" by (simp add: np_linspace_def Let_def)
  show ?thesis by (rule not_increasing_edges [OF l]) (simp only: e0 e1 less_irrefl not_False_eq_True)
qed

lemma equalization_narrow: "equalization ub [2 ^ 45, 2 ^ 45 + 1] = Inl ValueError"
proof -
  have m: "amin [2 ^ 45, 2 ^ 45 + 1] = 2 ^ 45" "amax [2 ^ 45, 2 ^ 45 + 1] = 2 ^ 45 + 1"
    by (simp_all add: amin_def amax_def)
  have oe: "outer_edges (2 ^ 45, 2 ^ 45 + 1) = Inr (2 ^ 45, 2 ^ 45 + 1)"
    by (simp add: outer_edges_def)
  have "np_histogram [2 ^ 45, 2 ^ 45 + 1] 256 (2 ^ 45, 2 ^ 45 + 1) = Inl ValueError"
    unfolding np_histogram_def oe sum.case prod.case Let_def
    using linspace_narrow by simp
  then show ?thesis unfolding equalization_def m by (simp only: sum.case)
qed

text \<open>
  The run of equalization on that raster ends in the handler with ValueError while it
  works on the first band; the second band, which has no valid sample, is never reached.
\<close>

lemma narrow_range_run:
  "outcome (processAlgorithm ub
      \<lparr>raster_layer = Some narrow_scene, method_index = 1, cut_percent = 2, gamma = 1,
       output_path = ''out.tif''\<rparr> []) = ReturnedEmpty ValueError \<and>
   trace (processAlgorithm ub
      \<lparr>raster_layer = Some narrow_scene, method_index = 1, cut_percent = 2, gamma = 1,
       output_path = ''out.tif''\<rparr> []) =
     [InfoProcessing 2 ''Equalization'', CreateOutput ''out.tif'', IsCanceled False,
      InfoBand 1 2, ReadBand 1, ReportError ValueError, InfoTraceback] \<and>
   raises (process_band ub 1 2 1 (raster_bands narrow_scene ! 0))"
proof -
  have b: "raster_bands narrow_scene ! 0 = \<lparr>band_data = [2 ^ 45, 2 ^ 45 + 1], band_nodata = None\<rparr>"
    by (simp add: narrow_scene_def)
  have pb: "process_band ub 1 2 1 \<lparr>band_data = [2 ^ 45, 2 ^ 45 + 1], band_nodata = None\<rparr> =
      Raised ValueError"
    unfolding process_band_def Let_def
    using equalization_narrow [of ub] by (simp add: band_mask_def enhance_def)
  have r: "raises (process_band ub 1 2 1 (raster_bands narrow_scene ! 0))"
    unfolding b pb by (simp add: raises_def)
  have "processAlgorithm ub
      \<lparr>raster_layer = Some narrow_scene, method_index = 1, cut_percent = 2, gamma = 1,
       output_path = ''out.tif''\<rparr> [] =
     caught ValueError
       [InfoProcessing 2 ''Equalization'', CreateOutput ''out.tif'', IsCanceled False,
        InfoBand 1 2, ReadBand 1]
       (Some (create_output ''out.tif'' narrow_scene))"
    unfolding processAlgorithm_def
    using pb
    by (simp add: narrow_scene_def py_getitem_def methods_def isCanceled_def numeral_2_eq_2)
  with r show ?thesis by (simp add: caught_def)
qed

end
